theory Spec2Isabelle
  imports Complex_Main "HOL-Library.Char_ord" "HOL-Library.List_Lexorder" "HOL-Library.Log_Nat"
begin

section \<open>Scanning the directory: \<open>get_image_files\<close>\<close>

text \<open>
  A path below the scan root is the list of its components (\<open>Path.parts\<close> after
  \<open>relative_to\<close>); \<open>as_posix\<close> joins them with a slash. A directory entry, as
  \<open>rglob('*')\<close> yields it, carries what the uploader later asks of it: whether it is a
  regular file, whether \<open>open(path, 'rb')\<close> succeeds, and what \<open>Image.open\<close> decodes
  (\<open>None\<close> when PIL raises).
\<close>

datatype image_mode = RGB | RGBA | LA | P | OtherMode

record image =
  mode :: image_mode
  width :: nat
  height :: nat

record entry =
  parts :: "string list"
  is_file :: bool
  readable :: bool
  decoded :: "image option"

datatype error = FileNotFoundError | ValueError | ZeroDivisionError | StoreError

definition SUPPORTED_EXTENSIONS :: "string set" where
  "SUPPORTED_EXTENSIONS =
     {''.jpg'', ''.jpeg'', ''.png'', ''.webp'', ''.gif'', ''.bmp'', ''.tiff'', ''.tif''}"

text \<open>\<open>str.rfind('.')\<close>: the index of the last dot, \<open>None\<close> for Python's \<open>-1\<close>.\<close>

fun rfind_dot :: "string \<Rightarrow> nat option" where
  "rfind_dot [] = None"
| "rfind_dot (c # cs) =
     (case rfind_dot cs of
        Some i \<Rightarrow> Some (Suc i)
      | None \<Rightarrow> if c = CHR ''.'' then Some 0 else None)"

text \<open>
  \<open>PurePath.suffix\<close> of the final component: \<open>name[i:]\<close> when \<open>0 < i < len(name) - 1\<close>
  for the last dot \<open>i\<close>, the empty string otherwise.
\<close>

definition suffix_of_name :: "string \<Rightarrow> string" where
  "suffix_of_name name =
     (case rfind_dot name of
        None \<Rightarrow> []
      | Some i \<Rightarrow> if 0 < i \<and> i + 1 < length name then drop i name else [])"

definition name_of :: "string list \<Rightarrow> string" where
  "name_of ps = (if ps = [] then [] else last ps)"

definition suffix :: "entry \<Rightarrow> string" where
  "suffix e = suffix_of_name (name_of (parts e))"

text \<open>
  \<open>str.lower\<close> on the bytes of the name: the letters A to Z move to a to z, every other
  byte stays (no character outside ASCII lowers to a letter of a supported extension).
\<close>

definition lower_char :: "char \<Rightarrow> char" where
  "lower_char c =
     (case map_of (zip ''ABCDEFGHIJKLMNOPQRSTUVWXYZ'' ''abcdefghijklmnopqrstuvwxyz'') c of
        None \<Rightarrow> c
      | Some d \<Rightarrow> d)"

definition lower :: "string \<Rightarrow> string" where
  "lower s = map lower_char s"

definition is_image :: "entry \<Rightarrow> bool" where
  "is_image e \<longleftrightarrow> is_file e \<and> lower (suffix e) \<in> SUPPORTED_EXTENSIONS"

text \<open>
  The directory is \<open>None\<close> when it does not exist, otherwise the entries of the tree in
  the order \<open>rglob\<close> walks it. The result is sorted as Python sorts \<open>Path\<close> objects:
  lexicographically by components, each compared as a string.
\<close>

definition get_image_files :: "entry list option \<Rightarrow> error + entry list" where
  "get_image_files directory =
     (case directory of
        None \<Rightarrow> Inl FileNotFoundError
      | Some entries \<Rightarrow> Inr (sort_key parts (filter is_image entries)))"

section \<open>Binary64 arithmetic\<close>

text \<open>
  \<open>create_thumbnail\<close> computes its sizes with Python floats. A float is a rational here,
  and each operation of the source (\<open>int / int\<close>, \<open>int * float\<close>, \<open>int / float\<close>)
  is the exact result rounded to the nearest number with a 53-bit significand, ties to
  the even significand, as IEEE 754 and CPython's true division give it. The exponent
  is not bounded: the quotients of image sizes stay far inside binary64's range.
\<close>

definition round_half_even :: "rat \<Rightarrow> int" where
  "round_half_even x =
     (let f = \<lfloor>x\<rfloor>; r = x - of_int f
      in if r < 1 / 2 then f else if 1 / 2 < r then f + 1 else if even f then f else f + 1)"

text \<open>For \<open>x > 0\<close>, the \<open>e\<close> with \<open>2 ^ e \<le> x < 2 ^ (e + 1)\<close>.\<close>

definition exponent :: "rat \<Rightarrow> int" where
  "exponent x =
     (let (a, b) = quotient_of x; d = bitlen a - bitlen b
      in if 2 powi d \<le> x then d else d - 1)"

definition float_round :: "rat \<Rightarrow> rat" where
  "float_round x =
     (if x = 0 then 0
      else let e = exponent \<bar>x\<bar> - 52
           in sgn x * of_int (round_half_even (\<bar>x\<bar> / 2 powi e)) * 2 powi e)"

definition fdiv :: "rat \<Rightarrow> rat \<Rightarrow> rat" where
  "fdiv a b = float_round (a / b)"

definition fmul :: "rat \<Rightarrow> rat \<Rightarrow> rat" where
  "fmul a b = float_round (a * b)"

text \<open>\<open>int(x)\<close> of a float truncates toward zero.\<close>

definition py_int :: "rat \<Rightarrow> int" where
  "py_int x = (if 0 \<le> x then \<lfloor>x\<rfloor> else \<lceil>x\<rceil>)"

section \<open>The thumbnail: \<open>create_thumbnail\<close>\<close>

definition THUMBNAIL_WIDTH :: int where
  "THUMBNAIL_WIDTH = 200"

definition THUMBNAIL_HEIGHT :: int where
  "THUMBNAIL_HEIGHT = 300"

text \<open>
  Lines 120 to 127: every mode ends as RGB, on a white background where there is
  transparency or a palette; the size does not change.
\<close>

definition to_rgb :: "image \<Rightarrow> image" where
  "to_rgb img = img\<lparr>mode := RGB\<rparr>"

definition aspect_ratio_of :: "nat \<Rightarrow> nat \<Rightarrow> rat" where
  "aspect_ratio_of original_width original_height =
     fdiv (of_nat original_width) (of_nat original_height)"

definition target_ratio :: rat where
  "target_ratio = fdiv (of_int THUMBNAIL_WIDTH) (of_int THUMBNAIL_HEIGHT)"

text \<open>
  Lines 130 to 141: the size the image is resized to. Both divisions raise
  \<open>ZeroDivisionError\<close> on a zero divisor (a zero height, or a zero width through a zero
  aspect ratio).
\<close>

definition cover_size :: "nat \<Rightarrow> nat \<Rightarrow> error + int \<times> int" where
  "cover_size original_width original_height =
     (if original_height = 0 then Inl ZeroDivisionError
      else let aspect_ratio = aspect_ratio_of original_width original_height
           in if target_ratio < aspect_ratio
              then Inr (py_int (fmul (of_int THUMBNAIL_HEIGHT) aspect_ratio), THUMBNAIL_HEIGHT)
              else if aspect_ratio = 0 then Inl ZeroDivisionError
              else Inr (THUMBNAIL_WIDTH, py_int (fdiv (of_int THUMBNAIL_WIDTH) aspect_ratio)))"

text \<open>\<open>Image.resize\<close> refuses a size with a side below one pixel.\<close>

definition resize :: "image \<Rightarrow> int \<times> int \<Rightarrow> error + image" where
  "resize img sz =
     (if fst sz < 1 \<or> snd sz < 1 then Inl ValueError
      else Inr (img\<lparr>width := nat (fst sz), height := nat (snd sz)\<rparr>))"

text \<open>Lines 147 to 150: the crop box \<open>(left, top, right, bottom)\<close>.\<close>

definition crop_box :: "int \<times> int \<Rightarrow> int \<times> int \<times> int \<times> int" where
  "crop_box sz =
     (let left = (fst sz - THUMBNAIL_WIDTH) div 2;
          top_edge = (snd sz - THUMBNAIL_HEIGHT) div 2;
          right = left + THUMBNAIL_WIDTH;
          bottom_edge = top_edge + THUMBNAIL_HEIGHT
      in (left, top_edge, right, bottom_edge))"

text \<open>
  \<open>Image.crop\<close> returns an image as wide as \<open>right - left\<close> and as high as
  \<open>bottom - top\<close>, whatever part of the box lies inside the image; it raises when the
  box is turned inside out.
\<close>

definition crop :: "image \<Rightarrow> int \<times> int \<times> int \<times> int \<Rightarrow> error + image" where
  "crop img box =
     (case box of (left, top_edge, right, bottom_edge) \<Rightarrow>
        if right < left \<or> bottom_edge < top_edge then Inl ValueError
        else Inr (img\<lparr>width := nat (right - left), height := nat (bottom_edge - top_edge)\<rparr>))"

text \<open>The size handed to \<open>img.resize\<close>.\<close>

definition resized_size :: "image \<Rightarrow> error + int \<times> int" where
  "resized_size img = cover_size (width (to_rgb img)) (height (to_rgb img))"

text \<open>
  The body of the \<open>try\<close> block, from the opened image to the thumbnail that is saved
  as JPEG; \<open>Inl\<close> is an exception raised on the way. The imaging library is taken
  without limits of memory: resizing and saving succeed for every size of at least one
  pixel.
\<close>

definition thumbnail_of :: "image \<Rightarrow> error + image" where
  "thumbnail_of img =
     (case resized_size img of
        Inl e \<Rightarrow> Inl e
      | Inr sz \<Rightarrow>
          (case resize (to_rgb img) sz of
             Inl e \<Rightarrow> Inl e
           | Inr resized \<Rightarrow> crop resized (crop_box sz)))"

section \<open>The object store and the uploader's steps\<close>

text \<open>
  The S3 client is outside the program. A call is \<open>head_object\<close> or \<open>put_object\<close>
  (bucket and ACL are fixed when the uploader is built); the store answers with success,
  with a \<open>ClientError\<close> (the service refused: not found, forbidden, a server error) or
  with any other exception (no connection, no credentials). Its answer may depend on
  every call made before, so a store is a function of the history of calls.
\<close>

datatype body = FileBody "string list" | BufferBody image

datatype call = HeadObject string | PutObject string body string

datatype response = Success | ClientError | OtherError

type_synonym store = "call list \<Rightarrow> call \<Rightarrow> response"

text \<open>The messages the code logs, one constructor for each \<open>logger\<close> call.\<close>

datatype event =
    Starting bool int
  | FoundImages nat
  | NoImagesFound
  | ThumbnailError "string list"
  | RetryWarning int string
  | UploadFailed string int
  | UnexpectedError string
  | Skipping "string list"
  | UploadedOriginal string
  | UploadedThumbnail string
  | ThumbnailMissing "string list"
  | NotFullyUploaded string
  | ProcessingError "string list"
  | ProcessingFiles nat int int
  | ProcessingBatch int int int nat
  | Summary nat nat nat nat

record stats =
  total_files :: nat
  successful_uploads :: nat
  failed_uploads :: nat
  skipped_files :: nat

record state =
  stats :: stats
  history :: "call list"
  log :: "event list"

text \<open>
  What one file's processing does, step by step: it returns, raises, calls the store and
  goes on with the answer, logs, or adds one to \<open>skipped_files\<close> under the lock. The
  sequential path runs such a task to its end; the thread pool interleaves the steps of
  several.
\<close>

datatype 'a task =
    Return 'a
  | Raise error
  | Call call "response \<Rightarrow> 'a task"
  | Log event "'a task"
  | IncSkipped "'a task"

primrec bind :: "'a task \<Rightarrow> ('a \<Rightarrow> 'b task) \<Rightarrow> 'b task" where
  "bind (Return a) f = f a"
| "bind (Raise e) f = Raise e"
| "bind (Call c k) f = Call c (\<lambda>r. bind (k r) f)"
| "bind (Log ev t) f = Log ev (bind t f)"
| "bind (IncSkipped t) f = IncSkipped (bind t f)"

definition add_skipped :: "state \<Rightarrow> state" where
  "add_skipped s = s\<lparr>stats := (stats s)\<lparr>skipped_files := skipped_files (stats s) + 1\<rparr>\<rparr>"

definition add_successful :: "state \<Rightarrow> state" where
  "add_successful s =
     s\<lparr>stats := (stats s)\<lparr>successful_uploads := successful_uploads (stats s) + 1\<rparr>\<rparr>"

definition add_failed :: "state \<Rightarrow> state" where
  "add_failed s = s\<lparr>stats := (stats s)\<lparr>failed_uploads := failed_uploads (stats s) + 1\<rparr>\<rparr>"

definition add_log :: "event \<Rightarrow> state \<Rightarrow> state" where
  "add_log ev s = s\<lparr>log := log s @ [ev]\<rparr>"

definition add_call :: "call \<Rightarrow> state \<Rightarrow> state" where
  "add_call c s = s\<lparr>history := history s @ [c]\<rparr>"

primrec run :: "store \<Rightarrow> 'a task \<Rightarrow> state \<Rightarrow> (error + 'a) \<times> state" where
  "run st (Return a) s = (Inr a, s)"
| "run st (Raise e) s = (Inl e, s)"
| "run st (Call c k) s = run st (k (st (history s) c)) (add_call c s)"
| "run st (Log ev t) s = run st t (add_log ev s)"
| "run st (IncSkipped t) s = run st t (add_skipped s)"

subsection \<open>\<open>file_exists_in_spaces\<close>\<close>

definition file_exists_in_spaces :: "string \<Rightarrow> bool task" where
  "file_exists_in_spaces key =
     Call (HeadObject key)
       (\<lambda>r. case r of
          Success \<Rightarrow> Return True
        | ClientError \<Rightarrow> Return False
        | OtherError \<Rightarrow> Raise StoreError)"

subsection \<open>\<open>upload_file\<close>\<close>

text \<open>
  \<open>file_data\<close> is a \<open>BytesIO\<close> buffer (the thumbnail) or a path, opened at every
  attempt; when \<open>open\<close> raises, \<open>except Exception\<close> ends the upload.
\<close>

datatype payload = Buffer image | FilePath entry

definition body_of :: "payload \<Rightarrow> body option" where
  "body_of file_data =
     (case file_data of
        Buffer img \<Rightarrow> Some (BufferBody img)
      | FilePath f \<Rightarrow> if readable f then Some (FileBody (parts f)) else None)"

text \<open>The loop \<open>for attempt in range(retry_count)\<close>, from \<open>attempt\<close> on.\<close>

function upload_attempts :: "payload \<Rightarrow> string \<Rightarrow> string \<Rightarrow> int \<Rightarrow> int \<Rightarrow> bool task" where
  "upload_attempts file_data key content_type retry_count attempt =
     (if attempt < retry_count then
        (case body_of file_data of
           None \<Rightarrow> Log (UnexpectedError key) (Return False)
         | Some b \<Rightarrow>
             Call (PutObject key b content_type)
               (\<lambda>r. case r of
                  Success \<Rightarrow> Return True
                | ClientError \<Rightarrow>
                    if attempt < retry_count - 1
                    then Log (RetryWarning (attempt + 1) key)
                           (upload_attempts file_data key content_type retry_count (attempt + 1))
                    else Log (UploadFailed key retry_count) (Return False)
                | OtherError \<Rightarrow> Log (UnexpectedError key) (Return False)))
      else Return False)"
  by pat_completeness auto
termination
  by (relation "measure (\<lambda>(file_data, key, content_type, retry_count, attempt).
        nat (retry_count - attempt))") auto

declare upload_attempts.simps [simp del]

definition upload_file :: "payload \<Rightarrow> string \<Rightarrow> string \<Rightarrow> int \<Rightarrow> bool task" where
  "upload_file file_data key content_type retry_count =
     upload_attempts file_data key content_type retry_count 0"

subsection \<open>\<open>create_thumbnail\<close> and \<open>get_content_type\<close>\<close>

text \<open>
  \<open>create_thumbnail\<close> returns the buffer with the thumbnail, or logs the exception and
  returns \<open>None\<close>: when \<open>Image.open\<close> fails and when anything after it raises.
\<close>

definition create_thumbnail :: "entry \<Rightarrow> image option task" where
  "create_thumbnail image_path =
     (case decoded image_path of
        None \<Rightarrow> Log (ThumbnailError (parts image_path)) (Return None)
      | Some img \<Rightarrow>
          (case thumbnail_of img of
             Inl e \<Rightarrow> Log (ThumbnailError (parts image_path)) (Return None)
           | Inr thumbnail \<Rightarrow> Return (Some thumbnail)))"

text \<open>
  The uploader's own settings: the folder prefix, and the table behind
  \<open>mimetypes.guess_type\<close>, which belongs to the Python installation.
\<close>

record config =
  folder_prefix :: string
  guess_type :: "string \<Rightarrow> string option"

fun as_posix :: "string list \<Rightarrow> string" where
  "as_posix [] = ''.''"
| "as_posix [p] = p"
| "as_posix (p # ps) = p @ ''/'' @ as_posix ps"

definition get_content_type :: "config \<Rightarrow> entry \<Rightarrow> string" where
  "get_content_type cfg file_path =
     (case guess_type cfg (as_posix (parts file_path)) of
        Some content_type \<Rightarrow> content_type
      | None \<Rightarrow> ''application/octet-stream'')"

subsection \<open>\<open>process_and_upload_image\<close>\<close>

definition original_key_of :: "config \<Rightarrow> entry \<Rightarrow> string" where
  "original_key_of cfg image_path =
     folder_prefix cfg @ ''/original/'' @ as_posix (parts image_path)"

definition thumbnail_key_of :: "config \<Rightarrow> entry \<Rightarrow> string" where
  "thumbnail_key_of cfg image_path =
     folder_prefix cfg @ ''/thumbnail/'' @ as_posix (parts image_path)"

text \<open>Lines 266 to 272: the two existence checks, made only with \<open>skip_existing\<close>.\<close>

definition check_existing :: "config \<Rightarrow> entry \<Rightarrow> bool \<Rightarrow> (bool \<times> bool) task" where
  "check_existing cfg image_path skip_existing =
     (if skip_existing then
        bind (file_exists_in_spaces (original_key_of cfg image_path)) (\<lambda>original_exists.
        bind (file_exists_in_spaces (thumbnail_key_of cfg image_path)) (\<lambda>thumbnail_exists.
        Return (original_exists, thumbnail_exists)))
      else Return (False, False))"

text \<open>Lines 283 to 289.\<close>

definition upload_original :: "config \<Rightarrow> entry \<Rightarrow> bool \<Rightarrow> bool \<Rightarrow> bool task" where
  "upload_original cfg image_path skip_existing original_exists =
     (if \<not> skip_existing \<or> \<not> original_exists then
        bind (upload_file (FilePath image_path) (original_key_of cfg image_path)
                (get_content_type cfg image_path) 3) (\<lambda>original_success.
        if original_success
        then Log (UploadedOriginal (original_key_of cfg image_path)) (Return True)
        else Return False)
      else Return True)"

text \<open>Lines 291 to 305.\<close>

definition upload_thumbnail :: "config \<Rightarrow> entry \<Rightarrow> bool \<Rightarrow> bool \<Rightarrow> bool task" where
  "upload_thumbnail cfg image_path skip_existing thumbnail_exists =
     (if \<not> skip_existing \<or> \<not> thumbnail_exists then
        bind (create_thumbnail image_path) (\<lambda>thumbnail_data.
        case thumbnail_data of
          Some data \<Rightarrow>
            bind (upload_file (Buffer data) (thumbnail_key_of cfg image_path) ''image/jpeg'' 3)
              (\<lambda>thumbnail_success.
                 if thumbnail_success
                 then Log (UploadedThumbnail (thumbnail_key_of cfg image_path)) (Return True)
                 else Return False)
        | None \<Rightarrow> Log (ThumbnailMissing (parts image_path)) (Return False))
      else Return True)"

definition process_and_upload_image :: "config \<Rightarrow> entry \<Rightarrow> bool \<Rightarrow> (bool \<times> bool) task" where
  "process_and_upload_image cfg image_path skip_existing =
     bind (check_existing cfg image_path skip_existing) (\<lambda>(original_exists, thumbnail_exists).
     if skip_existing \<and> original_exists \<and> thumbnail_exists
     then Log (Skipping (parts image_path)) (IncSkipped (Return (True, True)))
     else
       bind (upload_original cfg image_path skip_existing original_exists) (\<lambda>original_success.
       bind (upload_thumbnail cfg image_path skip_existing thumbnail_exists) (\<lambda>thumbnail_success.
       Return (original_success, thumbnail_success))))"

section \<open>The batch orchestrator\<close>

text \<open>
  What the caller of \<open>process_and_upload_image\<close> does with its outcome, in
  \<open>_upload_sequential\<close> and after \<open>future.result()\<close> alike (lines 354 to 365 and
  401 to 412).
\<close>

definition record_result :: "entry \<Rightarrow> error + bool \<times> bool \<Rightarrow> state \<Rightarrow> state" where
  "record_result image_path r s =
     (case r of
        Inr (original_success, thumbnail_success) \<Rightarrow>
          if original_success \<and> thumbnail_success then add_successful s
          else add_log (NotFullyUploaded (name_of (parts image_path))) (add_failed s)
      | Inl e \<Rightarrow> add_log (ProcessingError (parts image_path)) (add_failed s))"

fun upload_sequential :: "config \<Rightarrow> store \<Rightarrow> entry list \<Rightarrow> bool \<Rightarrow> state \<Rightarrow> state" where
  "upload_sequential cfg st [] skip_existing s = s"
| "upload_sequential cfg st (image_path # image_files) skip_existing s =
     (case run st (process_and_upload_image cfg image_path skip_existing) s of
        (r, s') \<Rightarrow> upload_sequential cfg st image_files skip_existing (record_result image_path r s'))"

subsection \<open>The thread pool\<close>

text \<open>
  A batch in \<open>_upload_concurrent\<close>: every file of the batch is submitted, at most
  \<open>workers\<close> threads take the submissions in order, and the steps of the running
  tasks interleave. A slot holds what is left of a file's task, or nothing once the
  task ended and the main thread counted its outcome. The threads that can move are
  those of the first \<open>workers\<close> unfinished slots; which one moves next is the
  scheduler's choice, a function of the number of steps made so far.
\<close>

datatype slot = Pending "(bool \<times> bool) task" | Finished

primrec depth :: "'a task \<Rightarrow> nat" where
  "depth (Return a) = 0"
| "depth (Raise e) = 0"
| "depth (Call c k) = Suc (max (depth (k Success)) (max (depth (k ClientError)) (depth (k OtherError))))"
| "depth (Log ev t) = Suc (depth t)"
| "depth (IncSkipped t) = Suc (depth t)"

fun weight :: "entry \<times> slot \<Rightarrow> nat" where
  "weight (f, Pending t) = Suc (depth t)"
| "weight (f, Finished) = 0"

fun is_pending :: "entry \<times> slot \<Rightarrow> bool" where
  "is_pending (f, Pending t) = True"
| "is_pending (f, Finished) = False"

definition runnable :: "nat \<Rightarrow> (entry \<times> slot) list \<Rightarrow> nat list" where
  "runnable workers pool = take workers (filter (\<lambda>i. is_pending (pool ! i)) [0..<length pool])"

text \<open>One step of one slot: the next action of its task, or the end of the task.\<close>

fun step_slot :: "store \<Rightarrow> entry \<times> slot \<Rightarrow> state \<Rightarrow> (entry \<times> slot) \<times> state" where
  "step_slot st (f, Pending (Return a)) s = ((f, Finished), record_result f (Inr a) s)"
| "step_slot st (f, Pending (Raise e)) s = ((f, Finished), record_result f (Inl e) s)"
| "step_slot st (f, Pending (Call c k)) s = ((f, Pending (k (st (history s) c))), add_call c s)"
| "step_slot st (f, Pending (Log ev t)) s = ((f, Pending t), add_log ev s)"
| "step_slot st (f, Pending (IncSkipped t)) s = ((f, Pending t), add_skipped s)"
| "step_slot st (f, Finished) s = ((f, Finished), s)"

definition pool_weight :: "(entry \<times> slot) list \<Rightarrow> nat" where
  "pool_weight pool = sum_list (map weight pool)"

definition pool_step ::
  "store \<Rightarrow> (nat \<Rightarrow> nat) \<Rightarrow> nat \<Rightarrow> nat \<Rightarrow> (entry \<times> slot) list \<Rightarrow> state \<Rightarrow> (entry \<times> slot) list \<times> state" where
  "pool_step st schedule workers n pool s =
     (let ready = runnable workers pool;
          i = ready ! (schedule n mod length ready)
      in case step_slot st (pool ! i) s of (sl, s') \<Rightarrow> (pool[i := sl], s'))"

function run_pool ::
  "store \<Rightarrow> (nat \<Rightarrow> nat) \<Rightarrow> nat \<Rightarrow> nat \<Rightarrow> (entry \<times> slot) list \<Rightarrow> state \<Rightarrow> nat \<times> state" where
  "run_pool st schedule workers n pool s =
     (if runnable workers pool = [] then (n, s)
      else case pool_step st schedule workers n pool s of
             (pool', s') \<Rightarrow> run_pool st schedule workers (Suc n) pool' s')"
  by pat_completeness auto

termination run_pool
proof (relation "measure (\<lambda>(st, schedule, workers, n, pool, s). pool_weight pool)")
  fix st :: store and schedule :: "nat \<Rightarrow> nat" and workers n :: nat
    and pool pool' :: "(entry \<times> slot) list" and s s' :: state
  assume ready: "runnable workers pool \<noteq> []"
    and step: "(pool', s') = pool_step st schedule workers n pool s"
  define i where "i = runnable workers pool ! (schedule n mod length (runnable workers pool))"
  have "i \<in> set (runnable workers pool)"
    using ready by (simp add: i_def)
  then have i: "i < length pool" "is_pending (pool ! i)"
    by (auto simp: runnable_def dest!: in_set_takeD)
  obtain f t where ft: "pool ! i = (f, Pending t)"
    using i(2) by (cases "pool ! i" rule: is_pending.cases) auto
  obtain sl where sl: "step_slot st (f, Pending t) s = (sl, s')" "pool' = pool[i := sl]"
    using step ft by (auto simp: pool_step_def Let_def i_def split: prod.splits)
  have answer: "depth (k r) \<le> max (depth (k Success)) (max (depth (k ClientError)) (depth (k OtherError)))"
    for k :: "response \<Rightarrow> (bool \<times> bool) task" and r
    by (cases r) simp_all
  have lighter: "weight sl < weight (pool ! i)"
  proof (cases t)
    case (Call c k)
    with sl(1) have "sl = (f, Pending (k (st (history s) c)))" by auto
    with Call ft show ?thesis using answer [of k "st (history s) c"] by simp
  qed (use sl(1) ft in auto)
  have update: "j < length xs \<Longrightarrow> weight y < weight (xs ! j) \<Longrightarrow>
      sum_list (map weight (xs[j := y])) < sum_list (map weight xs)" for j xs y
  proof (induction xs arbitrary: j)
    case Nil
    then show ?case by simp
  next
    case (Cons x xs)
    then show ?case by (cases j) auto
  qed
  have "pool_weight pool' < pool_weight pool"
    using update [OF i(1) lighter] sl(2) by (simp add: pool_weight_def)
  then show "((st, schedule, workers, Suc n, pool', s'), (st, schedule, workers, n, pool, s))
      \<in> measure (\<lambda>(st, schedule, workers, n, pool, s). pool_weight pool)"
    by simp
qed simp

subsection \<open>\<open>_upload_concurrent\<close>\<close>

text \<open>
  The loop \<open>for batch_start in range(0, len(image_files), batch_size)\<close> for a positive
  \<open>batch_size\<close>, from \<open>batch_start\<close> on. \<open>ThreadPoolExecutor\<close> raises
  \<open>ValueError\<close> unless \<open>max_workers\<close> is positive. The number returned with the
  state counts the steps the scheduler has chosen so far.
\<close>

function upload_batches ::
  "config \<Rightarrow> store \<Rightarrow> (nat \<Rightarrow> nat) \<Rightarrow> entry list \<Rightarrow> bool \<Rightarrow> int \<Rightarrow> int \<Rightarrow> nat \<Rightarrow> nat \<Rightarrow> state
     \<Rightarrow> (error + nat) \<times> state" where
  "upload_batches cfg st schedule image_files skip_existing workers batch_size batch_start n s =
     (if 0 < batch_size \<and> batch_start < length image_files then
        let batch_end = min (batch_start + nat batch_size) (length image_files);
            batch = take (batch_end - batch_start) (drop batch_start image_files);
            s1 = add_log (ProcessingBatch (int batch_start div batch_size + 1)
                            (int batch_start + 1) (int batch_end) (length image_files)) s
        in if workers \<le> 0 then (Inl ValueError, s1)
           else case run_pool st schedule (nat workers) n
                       (map (\<lambda>image_path.
                          (image_path, Pending (process_and_upload_image cfg image_path skip_existing)))
                          batch) s1 of
                  (n', s2) \<Rightarrow>
                    upload_batches cfg st schedule image_files skip_existing workers batch_size
                      (batch_start + nat batch_size) n' s2
      else (Inr n, s))"
  by pat_completeness auto
termination
  by (relation "measure (\<lambda>(cfg, st, schedule, image_files, skip_existing, workers, batch_size,
        batch_start, n, s). length image_files - batch_start)") auto

declare run_pool.simps [simp del] upload_batches.simps [simp del]

text \<open>\<open>range\<close> raises \<open>ValueError\<close> on a zero step and is empty for a negative one.\<close>

definition upload_concurrent ::
  "config \<Rightarrow> store \<Rightarrow> (nat \<Rightarrow> nat) \<Rightarrow> entry list \<Rightarrow> bool \<Rightarrow> int \<Rightarrow> int \<Rightarrow> state
     \<Rightarrow> (error + nat) \<times> state" where
  "upload_concurrent cfg st schedule image_files skip_existing workers batch_size s =
     (let s1 = add_log (ProcessingFiles (length image_files) workers batch_size) s
      in if batch_size = 0 then (Inl ValueError, s1)
         else upload_batches cfg st schedule image_files skip_existing workers batch_size 0 0 s1)"

subsection \<open>\<open>upload_directory\<close> and \<open>print_summary\<close>\<close>

definition print_summary :: "state \<Rightarrow> state" where
  "print_summary s =
     add_log (Summary (total_files (stats s)) (successful_uploads (stats s))
                (failed_uploads (stats s)) (skipped_files (stats s))) s"

text \<open>
  The message \<open>Found n image files\<close> of \<open>get_image_files\<close> is logged here, where the
  state is at hand. The progress bars of \<open>tqdm\<close> are left out.
\<close>

definition upload_directory ::
  "config \<Rightarrow> store \<Rightarrow> (nat \<Rightarrow> nat) \<Rightarrow> entry list option \<Rightarrow> bool \<Rightarrow> int \<Rightarrow> int \<Rightarrow> state
     \<Rightarrow> (error + unit) \<times> state" where
  "upload_directory cfg st schedule directory skip_existing workers batch_size s =
     (let s1 = add_log (Starting skip_existing workers) s
      in case get_image_files directory of
           Inl e \<Rightarrow> (Inl e, s1)
         | Inr image_files \<Rightarrow>
             let s2 = add_log (FoundImages (length image_files)) s1;
                 s3 = s2\<lparr>stats := (stats s2)\<lparr>total_files := length image_files\<rparr>\<rparr>
             in if image_files = [] then (Inr (), add_log NoImagesFound s3)
                else if workers = 1
                then (Inr (), print_summary (upload_sequential cfg st image_files skip_existing s3))
                else case upload_concurrent cfg st schedule image_files skip_existing
                            workers batch_size s3 of
                       (Inl e, s4) \<Rightarrow> (Inl e, s4)
                     | (Inr n, s4) \<Rightarrow> (Inr (), print_summary s4))"

text \<open>The uploader as \<open>__init__\<close> leaves it.\<close>

definition initial_state :: state where
  "initial_state =
     \<lparr>stats = \<lparr>total_files = 0, successful_uploads = 0, failed_uploads = 0, skipped_files = 0\<rparr>,
      history = [], log = []\<rparr>"

subsection \<open>Counting\<close>

text \<open>
  The files whose outcome has been counted as a success or a failure, and the slots of
  a pool whose task has not ended.
\<close>

definition decided :: "state \<Rightarrow> nat" where
  "decided s = successful_uploads (stats s) + failed_uploads (stats s)"

definition pending :: "(entry \<times> slot) list \<Rightarrow> nat" where
  "pending pool = length (filter is_pending pool)"

section \<open>Sample inputs\<close>

text \<open>
  Stores, schedulers, a configuration and directory entries on which the theorems
  below are evaluated: a store that cannot be reached, one that holds every key and
  accepts every upload, one whose first two calls fail with \<open>ClientError\<close>, one that
  refuses every call; the three files of the scenario in the specification, and two
  files that do not decode.
\<close>

definition unreachable_store :: store where
  "unreachable_store h c = OtherError"

definition full_store :: store where
  "full_store h c = Success"


definition sample_config :: config where
  "sample_config = \<lparr>folder_prefix = ''avatar'', guess_type = (\<lambda>name. None)\<rparr>"

definition file_entry :: "string list \<Rightarrow> image option \<Rightarrow> entry" where
  "file_entry ps img = \<lparr>parts = ps, is_file = True, readable = True, decoded = img\<rparr>"

definition dir_entry :: "string list \<Rightarrow> entry" where
  "dir_entry ps = \<lparr>parts = ps, is_file = False, readable = False, decoded = None\<rparr>"

definition sample_directory :: "entry list" where
  "sample_directory =
     [file_entry [''notes.txt''] None, file_entry [''sub'', ''b.PnG''] None,
      dir_entry [''x.png''], file_entry [''A.JPG''] None]"

definition sample_thumbnail :: image where
  "sample_thumbnail = \<lparr>mode = RGB, width = 200, height = 300\<rparr>"

definition refusing_store :: store where
  "refusing_store h c = ClientError"

definition first_ready :: "nat \<Rightarrow> nat" where
  "first_ready n = 0"

definition square_image :: image where
  "square_image = \<lparr>mode = RGB, width = 100, height = 100\<rparr>"

definition wide_image :: image where
  "wide_image = \<lparr>mode = RGB, width = 400, height = 100\<rparr>"

definition tall_image :: image where
  "tall_image = \<lparr>mode = RGB, width = 100, height = 400\<rparr>"

definition three_files :: "entry list" where
  "three_files =
     [file_entry [''a.png''] (Some square_image), file_entry [''b.jpg''] (Some wide_image),
      file_entry [''c.webp''] (Some tall_image)]"

definition round_robin :: "nat \<Rightarrow> nat" where
  "round_robin n = n"

definition broken_files :: "entry list" where
  "broken_files = [file_entry [''a.png''] None, file_entry [''b.jpg''] None]"

section \<open>Properties of the scan\<close>

text \<open>
  Claim C9. \<open>get_image_files\<close> matches extensions without regard to case: an entry of
  the tree is in the returned list exactly when it is a regular file and the lowercased
  suffix of its name is one of the eight supported extensions.
\<close>

theorem get_image_files_case_insensitive:
  "\<exists>files. get_image_files (Some entries) = Inr files \<and>
     (\<forall>e. e \<in> set files \<longleftrightarrow>
        e \<in> set entries \<and> is_file e \<and>
        lower (suffix e) \<in> {''.jpg'', ''.jpeg'', ''.png'', ''.webp'', ''.gif'', ''.bmp'', ''.tiff'', ''.tif''})"
  by (auto simp: get_image_files_def is_image_def SUPPORTED_EXTENSIONS_def)

text \<open>\<open>A.JPG\<close> and \<open>sub/b.PnG\<close> are found; a text file and a directory named \<open>x.png\<close> are not.\<close>

theorem get_image_files_case_insensitive_witness:
  "file_entry [''A.JPG''] None \<in> set (projr (get_image_files (Some sample_directory)))
   \<and> file_entry [''sub'', ''b.PnG''] None \<in> set (projr (get_image_files (Some sample_directory)))
   \<and> file_entry [''notes.txt''] None \<notin> set (projr (get_image_files (Some sample_directory)))
   \<and> dir_entry [''x.png''] \<notin> set (projr (get_image_files (Some sample_directory)))"
proof -
  obtain files where files: "get_image_files (Some sample_directory) = Inr files"
    and mem: "\<And>e. e \<in> set files \<longleftrightarrow>
        e \<in> set sample_directory \<and> is_file e \<and>
        lower (suffix e) \<in> {''.jpg'', ''.jpeg'', ''.png'', ''.webp'', ''.gif'', ''.bmp'', ''.tiff'', ''.tif''}"
    using get_image_files_case_insensitive [of sample_directory] by blast
  have 1: "file_entry [''A.JPG''] None \<in> set files"
    unfolding mem
    by (simp add: sample_directory_def suffix_def file_entry_def name_of_def suffix_of_name_def
        lower_def lower_char_def)
  have 2: "file_entry [''sub'', ''b.PnG''] None \<in> set files"
    unfolding mem
    by (simp add: sample_directory_def suffix_def file_entry_def name_of_def suffix_of_name_def
        lower_def lower_char_def)
  have 3: "file_entry [''notes.txt''] None \<notin> set files"
    unfolding mem
    by (simp add: suffix_def file_entry_def name_of_def suffix_of_name_def
        lower_def lower_char_def)
  have 4: "dir_entry [''x.png''] \<notin> set files"
    unfolding mem by (simp add: dir_entry_def)
  from 1 2 3 4 show ?thesis by (simp add: files)
qed

section \<open>Properties of the existence check\<close>

text \<open>
  Claim C7, as stated, fails: \<open>file_exists_in_spaces\<close> catches \<open>ClientError\<close> only,
  so an exception of another class (here: the store cannot be reached) leaves the
  function as an exception.
\<close>

theorem file_exists_in_spaces_propagates:
  "fst (run unreachable_store (file_exists_in_spaces ''avatar/original/a.png'') initial_state)
     = Inl StoreError"
  by (simp add: file_exists_in_spaces_def unreachable_store_def)

text \<open>
  Claim C7, amended. \<open>file_exists_in_spaces\<close> makes one \<open>head_object\<close> call; it returns
  \<open>True\<close> exactly when the call succeeds, \<open>False\<close> when the call raises a
  \<open>ClientError\<close>, and lets every other exception through to its caller.
\<close>

theorem file_exists_in_spaces_result:
  "run st (file_exists_in_spaces key) s =
     (case st (history s) (HeadObject key) of
        Success \<Rightarrow> Inr True
      | ClientError \<Rightarrow> Inr False
      | OtherError \<Rightarrow> Inl StoreError,
      add_call (HeadObject key) s)"
  by (simp add: file_exists_in_spaces_def split: response.splits)

section \<open>Properties of \<open>upload_file\<close>\<close>





lemma upload_attempts_bounded:
  "\<exists>b calls evs.
     run st (upload_attempts file_data key content_type retry_count attempt) s
       = (Inr b, s\<lparr>history := history s @ calls, log := log s @ evs\<rparr>)
     \<and> int (length calls) \<le> max 0 (retry_count - attempt)
     \<and> set calls \<subseteq> {c. \<exists>bd. body_of file_data = Some bd \<and> c = PutObject key bd content_type}"
proof (induction file_data key content_type retry_count attempt arbitrary: s
    rule: upload_attempts.induct)
  case (1 file_data key content_type retry_count attempt)
  show ?case
  proof (cases "attempt < retry_count")
    case False
    then have "run st (upload_attempts file_data key content_type retry_count attempt) s
        = (Inr False, s\<lparr>history := history s @ [], log := log s @ []\<rparr>)"
      by (subst upload_attempts.simps) simp
    then show ?thesis
      by (rule_tac x = False in exI, rule_tac x = "[]" in exI, rule_tac x = "[]" in exI) simp
  next
    case lt: True
    show ?thesis
    proof (cases "body_of file_data")
      case None
      with lt have "run st (upload_attempts file_data key content_type retry_count attempt) s
          = (Inr False, s\<lparr>history := history s @ [], log := log s @ [UnexpectedError key]\<rparr>)"
        by (subst upload_attempts.simps) (simp add: add_log_def)
      then show ?thesis
        by (rule_tac x = False in exI, rule_tac x = "[]" in exI,
            rule_tac x = "[UnexpectedError key]" in exI) simp
    next
      case (Some bd)
      let ?c = "PutObject key bd content_type"
      show ?thesis
      proof (cases "st (history s) ?c = ClientError \<and> attempt < retry_count - 1")
        case True
        let ?s = "add_log (RetryWarning (attempt + 1) key) (add_call ?c s)"
        from "1.IH" [OF lt Some _ , of ?s] True
        obtain b calls evs where rec:
          "run st (upload_attempts file_data key content_type retry_count (attempt + 1)) ?s
             = (Inr b, ?s\<lparr>history := history ?s @ calls, log := log ?s @ evs\<rparr>)"
          "int (length calls) \<le> max 0 (retry_count - (attempt + 1))"
          "set calls \<subseteq> {c. \<exists>bd. body_of file_data = Some bd \<and> c = PutObject key bd content_type}"
          by blast
        have "run st (upload_attempts file_data key content_type retry_count attempt) s
            = (Inr b, s\<lparr>history := history s @ (?c # calls),
                 log := log s @ (RetryWarning (attempt + 1) key # evs)\<rparr>)"
          using lt Some True rec(1)
          by (subst upload_attempts.simps) (simp add: add_log_def add_call_def)
        moreover have "int (length (?c # calls)) \<le> max 0 (retry_count - attempt)"
          using rec(2) lt by simp
        moreover have "set (?c # calls) \<subseteq> {c. \<exists>bd. body_of file_data = Some bd \<and> c = PutObject key bd content_type}"
          using rec(3) Some by auto
        ultimately show ?thesis by blast
      next
        case False
        have "\<exists>b evs. run st (upload_attempts file_data key content_type retry_count attempt) s
            = (Inr b, s\<lparr>history := history s @ [?c], log := log s @ evs\<rparr>)"
        proof (cases "st (history s) ?c")
          case Success
          with lt Some have "run st (upload_attempts file_data key content_type retry_count attempt) s
              = (Inr True, s\<lparr>history := history s @ [?c], log := log s @ []\<rparr>)"
            by (subst upload_attempts.simps) (simp add: add_call_def)
          then show ?thesis by blast
        next
          case ClientError
          with False lt Some have "run st (upload_attempts file_data key content_type retry_count attempt) s
              = (Inr False, s\<lparr>history := history s @ [?c],
                   log := log s @ [UploadFailed key retry_count]\<rparr>)"
            by (subst upload_attempts.simps) (simp add: add_call_def add_log_def)
          then show ?thesis by blast
        next
          case OtherError
          with lt Some have "run st (upload_attempts file_data key content_type retry_count attempt) s
              = (Inr False, s\<lparr>history := history s @ [?c],
                   log := log s @ [UnexpectedError key]\<rparr>)"
            by (subst upload_attempts.simps) (simp add: add_call_def add_log_def)
          then show ?thesis by blast
        qed
        then obtain b evs where "run st (upload_attempts file_data key content_type retry_count attempt) s
            = (Inr b, s\<lparr>history := history s @ [?c], log := log s @ evs\<rparr>)" by blast
        moreover have "int (length [?c]) \<le> max 0 (retry_count - attempt)"
          using lt by simp
        moreover have "set [?c] \<subseteq> {c. \<exists>bd. body_of file_data = Some bd \<and> c = PutObject key bd content_type}"
          using Some by auto
        ultimately show ?thesis by blast
      qed
    qed
  qed
qed


text \<open>
  Claim C10. \<open>upload_file\<close> is a total function: for every \<open>retry_count\<close> from zero
  on it returns a boolean, after at most \<open>retry_count\<close> calls of \<open>put_object\<close> and no
  other call; with \<open>retry_count = 0\<close> it returns \<open>False\<close> and has not touched the store
  or the log.
\<close>

theorem upload_file_attempts_bounded:
  assumes "0 \<le> retry_count"
  shows "\<exists>b calls evs.
     run st (upload_file file_data key content_type retry_count) s
       = (Inr b, s\<lparr>history := history s @ calls, log := log s @ evs\<rparr>)
     \<and> int (length calls) \<le> retry_count
     \<and> set calls \<subseteq> range (\<lambda>bd. PutObject key bd content_type)
     \<and> (retry_count = 0 \<longrightarrow> \<not> b \<and> calls = [] \<and> evs = [])"
proof (cases "retry_count = 0")
  case True
  then have "run st (upload_file file_data key content_type retry_count) s
      = (Inr False, s\<lparr>history := history s @ [], log := log s @ []\<rparr>)"
    unfolding upload_file_def by (subst upload_attempts.simps) simp
  with True show ?thesis
    by (rule_tac x = False in exI, rule_tac x = "[]" in exI, rule_tac x = "[]" in exI) simp
next
  case False
  from upload_attempts_bounded [of st file_data key content_type retry_count 0 s]
  obtain b calls evs where
    "run st (upload_attempts file_data key content_type retry_count 0) s
       = (Inr b, s\<lparr>history := history s @ calls, log := log s @ evs\<rparr>)"
    "int (length calls) \<le> max 0 (retry_count - 0)"
    "set calls \<subseteq> {c. \<exists>bd. body_of file_data = Some bd \<and> c = PutObject key bd content_type}"
    by blast
  moreover from this(3) have "set calls \<subseteq> range (\<lambda>bd. PutObject key bd content_type)"
    by auto
  ultimately show ?thesis
    using assms False unfolding upload_file_def by (auto simp: max_def)
qed

theorem upload_file_attempts_bounded_witness:
  "(0::int) \<le> 0 \<and>
   run refusing_store (upload_file (Buffer sample_thumbnail) ''avatar/thumbnail/a.png'' ''image/jpeg'' 0)
     initial_state = (Inr False, initial_state)"
  using upload_file_attempts_bounded
    [of 0 refusing_store "Buffer sample_thumbnail" "''avatar/thumbnail/a.png''" "''image/jpeg''"
      initial_state]
  by auto

section \<open>Properties of the orchestrator\<close>

text \<open>
  Claim C1 does not hold of the code. A file whose two keys exist is skipped:
  \<open>process_and_upload_image\<close> adds one to \<open>skipped_files\<close> and returns
  \<open>(True, True)\<close>, and its caller, seeing two successes, adds one to
  \<open>successful_uploads\<close>. For a directory of one such file the four counters end as
  1, 1, 0, 1: the three outcome counters sum to 2, not to \<open>total_files = 1\<close>.
\<close>

theorem skipped_file_counted_twice:
  "stats (snd (upload_directory sample_config full_store first_ready
      (Some [file_entry [''a.png''] (Some square_image)]) True 1 100 initial_state))
   = \<lparr>total_files = 1, successful_uploads = 1, failed_uploads = 0, skipped_files = 1\<rparr>"
  by code_simp

text \<open>
  Claim C2 does not hold of the code, by the same double count. The rerun of the
  three-file scenario against a store that holds all six keys makes six
  \<open>head_object\<close> calls and no \<open>put_object\<close> call, and ends with
  \<open>skipped_files = 3\<close>, but with \<open>successful_uploads = 3\<close> where the claim has 0.
\<close>

theorem rerun_counts_skipped_as_successful:
  "upload_directory sample_config full_store first_ready (Some three_files) True 1 100 initial_state
   = (Inr (),
      \<lparr>stats = \<lparr>total_files = 3, successful_uploads = 3, failed_uploads = 0, skipped_files = 3\<rparr>,
       history = [HeadObject ''avatar/original/a.png'', HeadObject ''avatar/thumbnail/a.png'',
                  HeadObject ''avatar/original/b.jpg'', HeadObject ''avatar/thumbnail/b.jpg'',
                  HeadObject ''avatar/original/c.webp'', HeadObject ''avatar/thumbnail/c.webp''],
       log = [Starting True 1, FoundImages 3, Skipping [''a.png''], Skipping [''b.jpg''],
              Skipping [''c.webp''], Summary 3 3 0 3]\<rparr>)"
  by code_simp

text \<open>
  Claim C3, as stated, fails: when the scan finds no supported image,
  \<open>upload_directory\<close> logs a warning and returns before \<open>print_summary\<close>.
\<close>

theorem no_summary_for_empty_directory:
  "upload_directory sample_config full_store first_ready
      (Some [file_entry [''notes.txt''] None]) True 1 100 initial_state
   = (Inr (),
      \<lparr>stats = \<lparr>total_files = 0, successful_uploads = 0, failed_uploads = 0, skipped_files = 0\<rparr>,
       history = [],
       log = [Starting True 1, FoundImages 0, NoImagesFound]\<rparr>)"
  by code_simp

lemma upload_batches_returns:
  "0 < workers \<Longrightarrow>
   \<exists>n'. fst (upload_batches cfg st schedule image_files skip_existing workers batch_size
             batch_start n s) = Inr n'"
proof (induction cfg st schedule image_files skip_existing workers batch_size batch_start n s
    rule: upload_batches.induct)
  case (1 cfg st schedule image_files skip_existing workers batch_size batch_start n s)
  show ?case
  proof (cases "0 < batch_size \<and> batch_start < length image_files")
    case False
    then show ?thesis by (subst upload_batches.simps) auto
  next
    case True
    define batch_end where "batch_end = min (batch_start + nat batch_size) (length image_files)"
    define batch where "batch = take (batch_end - batch_start) (drop batch_start image_files)"
    define s1 where "s1 = add_log (ProcessingBatch (int batch_start div batch_size + 1)
                            (int batch_start + 1) (int batch_end) (length image_files)) s"
    obtain n' s2 where pool: "run_pool st schedule (nat workers) n
        (map (\<lambda>image_path. (image_path, Pending (process_and_upload_image cfg image_path skip_existing)))
           batch) s1 = (n', s2)"
      by (cases "run_pool st schedule (nat workers) n
        (map (\<lambda>image_path. (image_path, Pending (process_and_upload_image cfg image_path skip_existing)))
           batch) s1") blast
    have w: "\<not> workers \<le> 0" using "1.prems" by simp
    have "\<exists>m. fst (upload_batches cfg st schedule image_files skip_existing workers batch_size
        (batch_start + nat batch_size) n' s2) = Inr m"
      using "1.IH" [OF True batch_end_def batch_def s1_def w pool [symmetric] "1.prems"] .
    then show ?thesis
      using True w pool
      by (subst upload_batches.simps)
         (simp add: Let_def batch_end_def [symmetric] batch_def [symmetric] s1_def [symmetric])
  qed
qed

lemma last_print_summary:
  "log (print_summary s) = log s @ [Summary (total_files (stats (print_summary s)))
      (successful_uploads (stats (print_summary s))) (failed_uploads (stats (print_summary s)))
      (skipped_files (stats (print_summary s)))]"
  by (simp add: print_summary_def add_log_def)

text \<open>
  Claim C3, amended. For an existing directory, with one worker, or with at least one
  worker and a batch size of at least one: when the scan finds at least one supported
  image, \<open>upload_directory\<close> returns normally and the last message it logs is the
  summary of the final statistics, whatever the store answers and however the threads
  interleave; when the scan finds none, it logs the warning and no summary.
\<close>

theorem upload_directory_prints_summary:
  assumes "get_image_files directory = Inr image_files"
    and "workers = 1 \<or> (1 \<le> workers \<and> 1 \<le> batch_size)"
  shows "\<exists>s'. upload_directory cfg st schedule directory skip_existing workers batch_size s
            = (Inr (), s')
          \<and> (if image_files = []
             then log s' = log s @ [Starting skip_existing workers, FoundImages 0, NoImagesFound]
             else log s' \<noteq> [] \<and>
                  last (log s') =
                    Summary (total_files (stats s')) (successful_uploads (stats s'))
                      (failed_uploads (stats s')) (skipped_files (stats s')))"
proof (cases "image_files = []")
  case True
  with assms(1) show ?thesis
    by (simp add: upload_directory_def Let_def add_log_def)
next
  case False
  define s3 where "s3 = (add_log (FoundImages (length image_files))
      (add_log (Starting skip_existing workers) s))
      \<lparr>stats := (stats (add_log (FoundImages (length image_files))
         (add_log (Starting skip_existing workers) s)))\<lparr>total_files := length image_files\<rparr>\<rparr>"
  show ?thesis
  proof (cases "workers = 1")
    case True
    have "upload_directory cfg st schedule directory skip_existing workers batch_size s
        = (Inr (), print_summary (upload_sequential cfg st image_files skip_existing s3))"
      using assms(1) False True
      by (simp add: upload_directory_def Let_def s3_def)
    then show ?thesis
      using False last_print_summary [of "upload_sequential cfg st image_files skip_existing s3"]
      by simp
  next
    case w: False
    with assms(2) have pos: "0 < workers" "batch_size \<noteq> 0" by auto
    define s4 where "s4 = add_log (ProcessingFiles (length image_files) workers batch_size) s3"
    obtain r s5 where batches: "upload_batches cfg st schedule image_files skip_existing workers
        batch_size 0 0 s4 = (r, s5)"
      by (cases "upload_batches cfg st schedule image_files skip_existing workers
        batch_size 0 0 s4") blast
    with upload_batches_returns [OF pos(1), of cfg st schedule image_files skip_existing
        batch_size 0 0 s4]
    obtain n where r: "r = Inr n" by auto
    have "upload_concurrent cfg st schedule image_files skip_existing workers batch_size s3
        = (Inr n, s5)"
      using pos(2) batches r by (simp add: upload_concurrent_def Let_def s4_def)
    then have "upload_directory cfg st schedule directory skip_existing workers batch_size s
        = (Inr (), print_summary s5)"
      using assms(1) False w
      by (simp add: upload_directory_def Let_def s3_def)
    then show ?thesis
      using False last_print_summary [of s5] by simp
  qed
qed


text \<open>
  Two files that do not decode, a store that cannot be reached, two workers: both files
  fail, and the summary is printed.
\<close>

theorem upload_directory_prints_summary_witness:
  "get_image_files (Some broken_files) = Inr broken_files
   \<and> ((2::int) = 1 \<or> ((1::int) \<le> 2 \<and> (1::int) \<le> 2))
   \<and> last (log (snd (upload_directory sample_config unreachable_store round_robin
          (Some broken_files) False 2 2 initial_state))) = Summary 2 0 2 0"
proof -
  have found: "get_image_files (Some broken_files) = Inr broken_files"
    by code_simp
  have valid: "(2::int) = 1 \<or> ((1::int) \<le> 2 \<and> (1::int) \<le> 2)"
    by simp
  have counted: "stats (snd (upload_directory sample_config unreachable_store round_robin
          (Some broken_files) False 2 2 initial_state))
      = \<lparr>total_files = 2, successful_uploads = 0, failed_uploads = 2, skipped_files = 0\<rparr>"
    by code_simp
  have files: "broken_files \<noteq> []"
    by (simp add: broken_files_def)
  from upload_directory_prints_summary [OF found valid, of sample_config unreachable_store
      round_robin False initial_state] files counted found
  show ?thesis by auto
qed

text \<open>
  What the counters do satisfy. Every file is counted exactly once as a success or as a
  failure, on the sequential path and for every interleaving of the pool, and
  \<open>total_files\<close> is the number of files found. A skipped file is among the successes,
  so the three outcome counters sum to \<open>total_files + skipped_files\<close>.
\<close>

lemma decided_simps:
  "decided (add_call c s) = decided s" "decided (add_log ev s) = decided s"
  "decided (add_skipped s) = decided s"
  "decided (add_successful s) = Suc (decided s)" "decided (add_failed s) = Suc (decided s)"
  by (simp_all add: decided_def add_call_def add_log_def add_skipped_def add_successful_def
      add_failed_def)

lemma total_simps:
  "total_files (stats (add_call c s)) = total_files (stats s)"
  "total_files (stats (add_log ev s)) = total_files (stats s)"
  "total_files (stats (add_skipped s)) = total_files (stats s)"
  "total_files (stats (add_successful s)) = total_files (stats s)"
  "total_files (stats (add_failed s)) = total_files (stats s)"
  by (simp_all add: add_call_def add_log_def add_skipped_def add_successful_def add_failed_def)

lemma run_counts:
  "run st t s = (r, s') \<Longrightarrow> decided s' = decided s \<and> total_files (stats s') = total_files (stats s)"
proof (induction t arbitrary: s)
  case (Call c k)
  from Call.prems have "run st (k (st (history s) c)) (add_call c s) = (r, s')" by simp
  from Call.IH [OF rangeI this] show ?case by (simp add: decided_simps total_simps)
next
  case (Log ev t)
  from Log.prems have "run st t (add_log ev s) = (r, s')" by simp
  from Log.IH [OF this] show ?case by (simp add: decided_simps total_simps)
next
  case (IncSkipped t)
  from IncSkipped.prems have "run st t (add_skipped s) = (r, s')" by simp
  from IncSkipped.IH [OF this] show ?case by (simp add: decided_simps total_simps)
qed auto

lemma record_result_counts:
  "decided (record_result f r s) = Suc (decided s)"
  "total_files (stats (record_result f r s)) = total_files (stats s)"
  by (auto simp: record_result_def decided_simps total_simps split: sum.splits)

lemma upload_sequential_counts:
  "decided (upload_sequential cfg st image_files skip_existing s) = decided s + length image_files
   \<and> total_files (stats (upload_sequential cfg st image_files skip_existing s))
       = total_files (stats s)"
proof (induction image_files arbitrary: s)
  case Nil
  then show ?case by simp
next
  case (Cons f fs)
  obtain r s' where r: "run st (process_and_upload_image cfg f skip_existing) s = (r, s')"
    by (cases "run st (process_and_upload_image cfg f skip_existing) s") blast
  from run_counts [OF r] Cons.IH [of "record_result f r s'"] r show ?case
    by (simp add: record_result_counts)
qed

lemma step_slot_counts:
  assumes "step_slot st sl s = (sl', s')"
  shows "decided s' + (if is_pending sl' then 1 else 0) = decided s + (if is_pending sl then 1 else 0)"
    and "total_files (stats s') = total_files (stats s)"
  using assms
  by (induction st sl s rule: step_slot.induct)
     (auto simp: decided_simps total_simps record_result_counts)

lemma pending_update:
  "i < length pool \<Longrightarrow>
   pending (pool[i := sl]) + (if is_pending (pool ! i) then 1 else 0)
     = pending pool + (if is_pending sl then 1 else 0)"
proof (induction pool arbitrary: i)
  case Nil
  then show ?case by simp
next
  case (Cons x xs)
  then show ?case by (cases i) (auto simp: pending_def)
qed


lemma runnable_empty:
  assumes "0 < workers" "runnable workers pool = []"
  shows "pending pool = 0"
proof -
  from assms have "filter (\<lambda>i. is_pending (pool ! i)) [0..<length pool] = []"
    by (auto simp: runnable_def take_eq_Nil)
  then have "\<forall>i<length pool. \<not> is_pending (pool ! i)"
    by (auto simp: filter_empty_conv)
  then have "\<forall>x\<in>set pool. \<not> is_pending x"
    by (metis in_set_conv_nth)
  then show ?thesis
    by (simp add: pending_def filter_empty_conv)
qed

lemma pool_step_counts:
  assumes "runnable workers pool \<noteq> []" and "pool_step st schedule workers n pool s = (pool', s')"
  shows "decided s' + pending pool' = decided s + pending pool"
    and "total_files (stats s') = total_files (stats s)"
proof -
  define i where "i = runnable workers pool ! (schedule n mod length (runnable workers pool))"
  have "i \<in> set (runnable workers pool)"
    using assms(1) by (simp add: i_def)
  then have i: "i < length pool"
    by (auto simp: runnable_def dest!: in_set_takeD)
  obtain sl where sl: "step_slot st (pool ! i) s = (sl, s')" "pool' = pool[i := sl]"
    using assms(2) by (auto simp: pool_step_def Let_def i_def split: prod.splits)
  from step_slot_counts(1) [OF sl(1)] pending_update [OF i, of sl] sl(2)
  show "decided s' + pending pool' = decided s + pending pool"
    by (auto split: if_splits)
  from step_slot_counts(2) [OF sl(1)]
  show "total_files (stats s') = total_files (stats s)" .
qed

lemma run_pool_counts:
  "0 < workers \<Longrightarrow> run_pool st schedule workers n pool s = (n', s') \<Longrightarrow>
   decided s' = decided s + pending pool \<and> total_files (stats s') = total_files (stats s)"
proof (induction st schedule workers n pool s rule: run_pool.induct)
  case (1 st schedule workers n pool s)
  show ?case
  proof (cases "runnable workers pool = []")
    case True
    with "1.prems" have "s' = s"
      by (subst (asm) run_pool.simps) simp
    with runnable_empty [OF "1.prems"(1) True] show ?thesis by simp
  next
    case False
    obtain pool1 s1 where step: "pool_step st schedule workers n pool s = (pool1, s1)"
      by (cases "pool_step st schedule workers n pool s") blast
    with False "1.prems"(2) have rest: "run_pool st schedule workers (Suc n) pool1 s1 = (n', s')"
      by (subst (asm) run_pool.simps) simp
    from "1.IH" [OF False step [symmetric] "1.prems"(1) rest]
      pool_step_counts [OF False step]
    show ?thesis by simp
  qed
qed

lemma pending_submitted:
  "pending (map (\<lambda>image_path. (image_path, Pending (task image_path))) batch) = length batch"
  by (induction batch) (simp_all add: pending_def)

lemma upload_batches_counts:
  "0 < workers \<Longrightarrow> 0 < batch_size \<Longrightarrow>
   upload_batches cfg st schedule image_files skip_existing workers batch_size batch_start n s
     = (r, s') \<Longrightarrow>
   decided s' = decided s + (length image_files - batch_start)
   \<and> total_files (stats s') = total_files (stats s)"
proof (induction cfg st schedule image_files skip_existing workers batch_size batch_start n s
    rule: upload_batches.induct)
  case (1 cfg st schedule image_files skip_existing workers batch_size batch_start n s)
  show ?case
  proof (cases "batch_start < length image_files")
    case False
    with "1.prems" have "s' = s"
      by (subst (asm) upload_batches.simps) simp
    with False show ?thesis by simp
  next
    case True
    with "1.prems"(2) have go: "0 < batch_size \<and> batch_start < length image_files" by simp
    define batch_end where "batch_end = min (batch_start + nat batch_size) (length image_files)"
    define batch where "batch = take (batch_end - batch_start) (drop batch_start image_files)"
    define s1 where "s1 = add_log (ProcessingBatch (int batch_start div batch_size + 1)
                            (int batch_start + 1) (int batch_end) (length image_files)) s"
    obtain n1 s2 where pool: "run_pool st schedule (nat workers) n
        (map (\<lambda>image_path. (image_path, Pending (process_and_upload_image cfg image_path skip_existing)))
           batch) s1 = (n1, s2)"
      by (cases "run_pool st schedule (nat workers) n
        (map (\<lambda>image_path. (image_path, Pending (process_and_upload_image cfg image_path skip_existing)))
           batch) s1") blast
    have w: "\<not> workers \<le> 0" using "1.prems"(1) by simp
    have rest: "upload_batches cfg st schedule image_files skip_existing workers batch_size
        (batch_start + nat batch_size) n1 s2 = (r, s')"
      using "1.prems"(3) go w pool
      by (subst (asm) upload_batches.simps)
         (simp add: Let_def batch_end_def [symmetric] batch_def [symmetric] s1_def [symmetric])
    have "0 < nat workers" using "1.prems"(1) by simp
    from run_pool_counts [OF this pool]
    have p: "decided s2 = decided s + length batch" "total_files (stats s2) = total_files (stats s)"
      by (simp_all add: pending_submitted s1_def decided_simps total_simps)
    have len: "length batch = min (nat batch_size) (length image_files - batch_start)"
      by (auto simp: batch_def batch_end_def)
    have sum: "min (nat batch_size) (length image_files - batch_start)
        + (length image_files - (batch_start + nat batch_size)) = length image_files - batch_start"
      by arith
    from "1.IH" [OF go batch_end_def batch_def s1_def w pool [symmetric] "1.prems"(1,2) rest] p len sum
    show ?thesis by simp
  qed
qed


lemma upload_directory_counts:
  assumes "get_image_files directory = Inr image_files"
    and "workers = 1 \<or> (1 \<le> workers \<and> 1 \<le> batch_size)"
    and "upload_directory cfg st schedule directory skip_existing workers batch_size s = (r, s')"
  shows "total_files (stats s') = length image_files
    \<and> successful_uploads (stats s') + failed_uploads (stats s')
        = successful_uploads (stats s) + failed_uploads (stats s) + length image_files"
proof -
  define s3 where "s3 = (add_log (FoundImages (length image_files))
      (add_log (Starting skip_existing workers) s))
      \<lparr>stats := (stats (add_log (FoundImages (length image_files))
         (add_log (Starting skip_existing workers) s)))\<lparr>total_files := length image_files\<rparr>\<rparr>"
  have s3: "total_files (stats s3) = length image_files" "decided s3 = decided s"
    by (simp_all add: s3_def decided_def add_log_def)
  have summary: "total_files (stats (print_summary t)) = total_files (stats t)"
    "decided (print_summary t) = decided t" for t
    by (simp_all add: print_summary_def decided_simps total_simps)
  have "total_files (stats s') = length image_files \<and> decided s' = decided s + length image_files"
  proof (cases "image_files = []")
    case True
    with assms(1,3) have "s' = add_log NoImagesFound s3"
      by (simp add: upload_directory_def Let_def s3_def)
    with True s3 show ?thesis by (simp add: decided_simps total_simps)
  next
    case False
    show ?thesis
    proof (cases "workers = 1")
      case True
      with assms(1,3) False
      have "s' = print_summary (upload_sequential cfg st image_files skip_existing s3)"
        by (auto simp: upload_directory_def Let_def s3_def)
      with upload_sequential_counts [of cfg st image_files skip_existing s3] s3 summary
      show ?thesis by simp
    next
      case w: False
      with assms(2) have pos: "0 < workers" "0 < batch_size" by auto
      define s4 where "s4 = add_log (ProcessingFiles (length image_files) workers batch_size) s3"
      obtain r5 s5 where batches: "upload_batches cfg st schedule image_files skip_existing workers
          batch_size 0 0 s4 = (r5, s5)"
        by (cases "upload_batches cfg st schedule image_files skip_existing workers
          batch_size 0 0 s4") blast
      from upload_batches_counts [OF pos batches]
      have s5: "decided s5 = decided s + length image_files"
        "total_files (stats s5) = length image_files"
        using s3 by (simp_all add: s4_def decided_simps total_simps)
      have "upload_concurrent cfg st schedule image_files skip_existing workers batch_size s3
          = (r5, s5)"
        using pos(2) batches by (simp add: upload_concurrent_def Let_def s4_def)
      with assms(1,3) False w have "s' = s5 \<or> s' = print_summary s5"
        by (auto simp: upload_directory_def Let_def s3_def split: sum.splits)
      with s5 summary show ?thesis by auto
    qed
  qed
  then show ?thesis by (simp add: decided_def)
qed

section \<open>Properties of \<open>process_and_upload_image\<close>\<close>

lemma run_bind:
  "run st (bind t f) s =
     (case run st t s of
        (Inl e, s') \<Rightarrow> (Inl e, s')
      | (Inr a, s') \<Rightarrow> run st (f a) s')"
  by (induction t arbitrary: s) simp_all

lemma upload_attempts_same_body:
  "body_of file_data' = body_of file_data \<Longrightarrow>
   upload_attempts file_data' key content_type retry_count attempt
     = upload_attempts file_data key content_type retry_count attempt"
proof (induction file_data key content_type retry_count attempt rule: upload_attempts.induct)
  case (1 file_data key content_type retry_count attempt)
  show ?case
  proof (cases "body_of file_data")
    case None
    with "1.prems" show ?thesis
      by (subst upload_attempts.simps, subst (2) upload_attempts.simps) simp
  next
    case (Some bd)
    have "attempt < retry_count \<Longrightarrow> attempt < retry_count - 1 \<Longrightarrow>
        upload_attempts file_data' key content_type retry_count (attempt + 1)
          = upload_attempts file_data key content_type retry_count (attempt + 1)"
      using "1.IH" [OF _ Some] "1.prems" by simp
    with Some "1.prems" show ?thesis
      by (subst upload_attempts.simps, subst (2) upload_attempts.simps) simp
  qed
qed

lemma run_upload_file:
  "\<exists>b calls evs.
     run st (upload_file file_data key content_type retry_count) s
       = (Inr b, s\<lparr>history := history s @ calls, log := log s @ evs\<rparr>)
     \<and> set calls \<subseteq> {c. \<exists>bd. body_of file_data = Some bd \<and> c = PutObject key bd content_type}"
  using upload_attempts_bounded [of st file_data key content_type retry_count 0 s]
  unfolding upload_file_def by blast

lemma run_upload_original:
  "\<exists>b calls evs.
     run st (upload_original cfg image_path skip_existing original_exists) s
       = (Inr b, s\<lparr>history := history s @ calls, log := log s @ evs\<rparr>)
     \<and> (\<forall>c\<in>set calls. \<exists>k ct. c = PutObject k (FileBody (parts image_path)) ct)"
proof (cases "\<not> skip_existing \<or> \<not> original_exists")
  case False
  then have "run st (upload_original cfg image_path skip_existing original_exists) s
      = (Inr True, s\<lparr>history := history s @ [], log := log s @ []\<rparr>)"
    by (simp add: upload_original_def)
  then show ?thesis
    by (rule_tac x = True in exI, rule_tac x = "[]" in exI, rule_tac x = "[]" in exI) simp
next
  case True
  obtain b calls evs where up:
    "run st (upload_file (FilePath image_path) (original_key_of cfg image_path)
        (get_content_type cfg image_path) 3) s
      = (Inr b, s\<lparr>history := history s @ calls, log := log s @ evs\<rparr>)"
    "set calls \<subseteq> {c. \<exists>bd. body_of (FilePath image_path) = Some bd \<and>
        c = PutObject (original_key_of cfg image_path) bd (get_content_type cfg image_path)}"
    using run_upload_file by blast
  from up(2) have calls: "\<forall>c\<in>set calls. \<exists>k ct. c = PutObject k (FileBody (parts image_path)) ct"
    by (auto simp: body_of_def split: if_splits)
  show ?thesis
  proof (cases b)
    case True
    with \<open>\<not> skip_existing \<or> \<not> original_exists\<close> up(1)
    have "run st (upload_original cfg image_path skip_existing original_exists) s
        = (Inr True, s\<lparr>history := history s @ calls,
            log := log s @ (evs @ [UploadedOriginal (original_key_of cfg image_path)])\<rparr>)"
      by (simp add: upload_original_def run_bind add_log_def)
    with calls show ?thesis by blast
  next
    case False
    with \<open>\<not> skip_existing \<or> \<not> original_exists\<close> up(1)
    have "run st (upload_original cfg image_path skip_existing original_exists) s
        = (Inr False, s\<lparr>history := history s @ calls, log := log s @ evs\<rparr>)"
      by (simp add: upload_original_def run_bind)
    with calls show ?thesis by blast
  qed
qed

lemma upload_original_same_file:
  assumes "parts other = parts image_path" and "readable other = readable image_path"
  shows "upload_original cfg other skip_existing original_exists
     = upload_original cfg image_path skip_existing original_exists"
proof -
  have k: "original_key_of cfg other = original_key_of cfg image_path"
    using assms by (simp add: original_key_of_def)
  have ct: "get_content_type cfg other = get_content_type cfg image_path"
    using assms by (simp add: get_content_type_def)
  have "body_of (FilePath other) = body_of (FilePath image_path)"
    using assms by (simp add: body_of_def)
  then have "upload_file (FilePath other) key content_type 3
      = upload_file (FilePath image_path) key content_type 3" for key content_type
    unfolding upload_file_def by (rule upload_attempts_same_body)
  then show ?thesis
    unfolding upload_original_def k ct by simp
qed

lemma check_existing_same_file:
  "parts other = parts image_path \<Longrightarrow>
   check_existing cfg other skip_existing = check_existing cfg image_path skip_existing"
  by (simp add: check_existing_def original_key_of_def thumbnail_key_of_def)

lemma run_upload_thumbnail_returns:
  "\<exists>b s'. run st (upload_thumbnail cfg image_path skip_existing thumbnail_exists) s = (Inr b, s')"
proof -
  have upload: "\<exists>b s'. run st (bind (upload_file (Buffer data) key ''image/jpeg'' 3)
        (\<lambda>thumbnail_success. if thumbnail_success then Log (UploadedThumbnail key) (Return True)
           else Return False)) s0 = (Inr b, s')" for data key s0
  proof -
    obtain b calls evs where
      "run st (upload_file (Buffer data) key ''image/jpeg'' 3) s0
        = (Inr b, s0\<lparr>history := history s0 @ calls, log := log s0 @ evs\<rparr>)"
      using run_upload_file by blast
    then show ?thesis by (cases b) (auto simp: run_bind)
  qed
  show ?thesis
  proof (cases "\<not> skip_existing \<or> \<not> thumbnail_exists")
    case False
    then show ?thesis by (auto simp: upload_thumbnail_def)
  next
    case True
    show ?thesis
    proof (cases "decoded image_path")
      case None
      with True show ?thesis
        by (auto simp: upload_thumbnail_def create_thumbnail_def run_bind)
    next
      case (Some img)
      show ?thesis
      proof (cases "thumbnail_of img")
        case (Inl e)
        with True Some show ?thesis
          by (auto simp: upload_thumbnail_def create_thumbnail_def run_bind)
      next
        case (Inr data)
        with True Some upload [of data "thumbnail_key_of cfg image_path" s] show ?thesis
          by (auto simp: upload_thumbnail_def create_thumbnail_def)
      qed
    qed
  qed
qed

lemma run_upload_thumbnail_failed:
  assumes "create_thumbnail image_path = Log (ThumbnailError (parts image_path)) (Return None)"
    and "\<not> (skip_existing \<and> thumbnail_exists)"
  shows "run st (upload_thumbnail cfg image_path skip_existing thumbnail_exists) s
    = (Inr False, s\<lparr>log := log s @ [ThumbnailError (parts image_path),
                                      ThumbnailMissing (parts image_path)]\<rparr>)"
  using assms by (auto simp: upload_thumbnail_def add_log_def)

lemma run_check_existing:
  "run st (check_existing cfg image_path skip_existing) s = (Inr (original_exists, thumbnail_exists), s1)
   \<Longrightarrow> (if skip_existing
        then s1 = s\<lparr>history := history s @ [HeadObject (original_key_of cfg image_path),
                                            HeadObject (thumbnail_key_of cfg image_path)]\<rparr>
           \<and> (thumbnail_exists \<longleftrightarrow>
                st (history s @ [HeadObject (original_key_of cfg image_path)])
                  (HeadObject (thumbnail_key_of cfg image_path)) = Success)
        else s1 = s \<and> \<not> original_exists \<and> \<not> thumbnail_exists)"
  by (auto simp: check_existing_def file_exists_in_spaces_def add_call_def
      split: response.splits if_splits)


lemma run_process_and_upload_image:
  "run st (process_and_upload_image cfg image_path skip_existing) s =
     (case run st (check_existing cfg image_path skip_existing) s of
        (Inl e, s1) \<Rightarrow> (Inl e, s1)
      | (Inr (original_exists, thumbnail_exists), s1) \<Rightarrow>
          if skip_existing \<and> original_exists \<and> thumbnail_exists
          then (Inr (True, True), add_skipped (add_log (Skipping (parts image_path)) s1))
          else
            (case run st (upload_original cfg image_path skip_existing original_exists) s1 of
               (Inl e, s2) \<Rightarrow> (Inl e, s2)
             | (Inr original_success, s2) \<Rightarrow>
                 (case run st (upload_thumbnail cfg image_path skip_existing thumbnail_exists) s2 of
                    (Inl e, s3) \<Rightarrow> (Inl e, s3)
                  | (Inr thumbnail_success, s3) \<Rightarrow>
                      (Inr (original_success, thumbnail_success), s3))))"
  by (simp add: process_and_upload_image_def run_bind split: prod.splits sum.splits)

text \<open>
  Claim C8. Take a file for which \<open>create_thumbnail\<close> logs its error and returns
  \<open>None\<close>, and a run of \<open>process_and_upload_image\<close> that reaches the thumbnail step
  (the thumbnail is not passed over as existing) and returns an outcome. Then
  \<open>thumbnail_success\<close> is false, no call of the run uploads a thumbnail buffer, and
  the original's outcome is the one the same file would get from the same store if its
  thumbnail could be made: any entry with the same path and the same readability, whatever
  \<open>Image.open\<close> makes of it, ends with the same \<open>original_success\<close>.
\<close>

theorem failed_thumbnail_leaves_original_alone:
  assumes failed: "create_thumbnail image_path
      = Log (ThumbnailError (parts image_path)) (Return None)"
    and reached: "\<not> (skip_existing \<and>
        st (history s @ [HeadObject (original_key_of cfg image_path)])
          (HeadObject (thumbnail_key_of cfg image_path)) = Success)"
    and result: "run st (process_and_upload_image cfg image_path skip_existing) s
        = (Inr (original_success, thumbnail_success), s')"
    and other: "parts other = parts image_path" "readable other = readable image_path"
  shows "\<not> thumbnail_success
    \<and> (\<forall>c\<in>set (drop (length (history s)) (history s')).
          \<forall>k data ct. c \<noteq> PutObject k (BufferBody data) ct)
    \<and> (\<exists>t s''. run st (process_and_upload_image cfg other skip_existing) s
          = (Inr (original_success, t), s''))"
proof -
  obtain r1 s1 where check: "run st (check_existing cfg image_path skip_existing) s = (r1, s1)"
    by (cases "run st (check_existing cfg image_path skip_existing) s") blast
  with result obtain original_exists thumbnail_exists where r1: "r1 = Inr (original_exists, thumbnail_exists)"
    by (cases r1) (auto simp: run_process_and_upload_image)
  from run_check_existing [OF check [unfolded r1]] reached
  have no_skip: "\<not> (skip_existing \<and> thumbnail_exists)"
    and heads: "\<exists>hs. history s1 = history s @ hs \<and> (\<forall>c\<in>set hs. \<exists>k. c = HeadObject k)"
    by (auto split: if_splits)
  obtain b calls evs where orig:
    "run st (upload_original cfg image_path skip_existing original_exists) s1
       = (Inr b, s1\<lparr>history := history s1 @ calls, log := log s1 @ evs\<rparr>)"
    "\<forall>c\<in>set calls. \<exists>k ct. c = PutObject k (FileBody (parts image_path)) ct"
    using run_upload_original by blast
  define s2 where "s2 = s1\<lparr>history := history s1 @ calls, log := log s1 @ evs\<rparr>"
  have thumb: "run st (upload_thumbnail cfg image_path skip_existing thumbnail_exists) s2
      = (Inr False, s2\<lparr>log := log s2 @ [ThumbnailError (parts image_path),
                                          ThumbnailMissing (parts image_path)]\<rparr>)"
    using run_upload_thumbnail_failed [OF failed no_skip] .
  from result check r1 no_skip orig(1) thumb
  have res: "original_success = b" "\<not> thumbnail_success"
    "s' = s2\<lparr>log := log s2 @ [ThumbnailError (parts image_path),
                                  ThumbnailMissing (parts image_path)]\<rparr>"
    by (auto simp: run_process_and_upload_image s2_def)
  from heads obtain hs where hs: "history s1 = history s @ hs" "\<forall>c\<in>set hs. \<exists>k. c = HeadObject k"
    by blast
  have "history s' = history s @ (hs @ calls)"
    by (simp add: res(3) s2_def hs(1))
  then have new: "drop (length (history s)) (history s') = hs @ calls"
    by simp
  have no_put: "\<forall>c\<in>set (drop (length (history s)) (history s')).
      \<forall>k data ct. c \<noteq> PutObject k (BufferBody data) ct"
    unfolding new using hs(2) orig(2) by auto
  obtain t s'' where t: "run st (upload_thumbnail cfg other skip_existing thumbnail_exists) s2
      = (Inr t, s'')"
    using run_upload_thumbnail_returns by blast
  have "run st (process_and_upload_image cfg other skip_existing) s = (Inr (b, t), s'')"
    using check r1 no_skip orig(1) t
    by (auto simp: run_process_and_upload_image check_existing_same_file [OF other(1)]
        upload_original_same_file [OF other] s2_def)
  with res(1,2) no_put show ?thesis by blast
qed


text \<open>
  A file that does not decode, uploaded without the existence check to a store that
  accepts everything: the original succeeds, the thumbnail fails, and the decodable
  file of the same name has the same original outcome.
\<close>

theorem failed_thumbnail_leaves_original_alone_witness:
  "create_thumbnail (file_entry [''a.png''] None)
     = Log (ThumbnailError (parts (file_entry [''a.png''] None))) (Return None)
   \<and> fst (run full_store
         (process_and_upload_image sample_config (file_entry [''a.png''] None) False)
         initial_state) = Inr (True, False)
   \<and> (\<exists>t s''. run full_store
         (process_and_upload_image sample_config (file_entry [''a.png''] (Some square_image)) False)
         initial_state = (Inr (True, t), s''))"
proof -
  let ?f = "file_entry [''a.png''] None"
  let ?g = "file_entry [''a.png''] (Some square_image)"
  have failed: "create_thumbnail ?f = Log (ThumbnailError (parts ?f)) (Return None)"
    by (simp add: create_thumbnail_def file_entry_def)
  have reached: "\<not> (False \<and>
      full_store (history initial_state @ [HeadObject (original_key_of sample_config ?f)])
        (HeadObject (thumbnail_key_of sample_config ?f)) = Success)"
    by simp
  have outcome: "fst (run full_store (process_and_upload_image sample_config ?f False)
      initial_state) = Inr (True, False)"
    by code_simp
  then obtain s' where result: "run full_store (process_and_upload_image sample_config ?f False)
      initial_state = (Inr (True, False), s')"
    by (cases "run full_store (process_and_upload_image sample_config ?f False) initial_state")
       simp
  have same: "parts ?g = parts ?f" "readable ?g = readable ?f"
    by (simp_all add: file_entry_def)
  from failed_thumbnail_leaves_original_alone [OF failed reached result same] failed outcome
  show ?thesis by blast
qed

section \<open>Properties of the rounding\<close>

text \<open>
  Rounding to binary64 is monotone, keeps a positive number positive, and lands on a
  multiple of \<open>2 ^ - 53\<close> between one half and one. These three facts carry the
  comparisons of \<open>create_thumbnail\<close> from the floats to the sizes.
\<close>

lemma round_half_even_of_int: "round_half_even (of_int n) = n"
  by (simp add: round_half_even_def)

lemma round_half_even_floor: "\<lfloor>x\<rfloor> \<le> round_half_even x" "round_half_even x \<le> \<lfloor>x\<rfloor> + 1"
  by (simp_all add: round_half_even_def Let_def)

lemma round_half_even_mono:
  assumes "x \<le> y"
  shows "round_half_even x \<le> round_half_even y"
proof (cases "\<lfloor>x\<rfloor> = \<lfloor>y\<rfloor>")
  case True
  with assms show ?thesis
    by (auto simp: round_half_even_def Let_def)
next
  case False
  with assms have "\<lfloor>x\<rfloor> + 1 \<le> \<lfloor>y\<rfloor>"
    using floor_mono [of x y] by linarith
  with round_half_even_floor(2) [of x] round_half_even_floor(1) [of y] show ?thesis
    by linarith
qed

lemma bitlen_powi:
  assumes "0 < a"
  shows "(2::rat) powi (bitlen a - 1) \<le> of_int a" "of_int a < (2::rat) powi bitlen a"
proof -
  from assms have p: "1 \<le> bitlen a"
    using bitlen_eq_zero_iff [of a] bitlen_nonneg [of a] by linarith
  from bitlen_bounds [OF assms]
  have "(2::int) ^ nat (bitlen a - 1) \<le> a" "a < 2 ^ nat (bitlen a)" by simp_all
  then have "(of_int ((2::int) ^ nat (bitlen a - 1)) :: rat) \<le> of_int a"
    "(of_int a :: rat) < of_int (2 ^ nat (bitlen a))"
    by (simp_all only: of_int_le_iff of_int_less_iff)
  with p show "(2::rat) powi (bitlen a - 1) \<le> of_int a" "of_int a < (2::rat) powi bitlen a"
    by (simp_all add: power_int_def)
qed

lemma exponent_bounds:
  assumes "0 < x"
  shows "2 powi exponent x \<le> x" "x < 2 powi (exponent x + 1)"
proof -
  obtain a b where q: "quotient_of x = (a, b)"
    by (cases "quotient_of x") blast
  then have b: "0 < b" and x: "x = of_int a / of_int b"
    using quotient_of_denom_pos [of x a b] quotient_of_div [of x a b] by simp_all
  with assms have a: "0 < a"
    by (simp add: zero_less_divide_iff)
  define d where "d = bitlen a - bitlen b"
  have e: "exponent x = (if 2 powi d \<le> x then d else d - 1)"
    by (simp add: exponent_def q d_def)
  have rb: "(0::rat) < of_int b" using b by simp
  have "x < 2 powi bitlen a / 2 powi (bitlen b - 1)"
    unfolding x using bitlen_powi [OF a] bitlen_powi [OF b] rb a
    by (intro frac_less) auto
  also have "\<dots> = 2 powi (d + 1)"
  proof -
    have "2 powi bitlen a / 2 powi (bitlen b - 1) = (2::rat) powi (bitlen a - (bitlen b - 1))"
      by (simp add: power_int_diff)
    also have "bitlen a - (bitlen b - 1) = d + 1" by (simp add: d_def)
    finally show ?thesis .
  qed
  finally have up: "x < 2 powi (d + 1)" .
  have "2 powi (bitlen a - 1) / 2 powi bitlen b < x"
    unfolding x using bitlen_powi [OF a] bitlen_powi [OF b] rb
    by (intro frac_less2) auto
  also have "2 powi (bitlen a - 1) / 2 powi bitlen b = (2::rat) powi (d - 1)"
  proof -
    have "2 powi (bitlen a - 1) / 2 powi bitlen b = (2::rat) powi (bitlen a - 1 - bitlen b)"
      by (simp add: power_int_diff)
    also have "bitlen a - 1 - bitlen b = d - 1" by (simp add: d_def)
    finally show ?thesis .
  qed
  finally have low: "2 powi (d - 1) < x" .
  show "2 powi exponent x \<le> x"
    using low by (simp add: e less_imp_le)
  show "x < 2 powi (exponent x + 1)"
    using up by (auto simp: e not_le)
qed


lemma float_round_pos_eq:
  "0 < x \<Longrightarrow>
   float_round x = of_int (round_half_even (x / 2 powi (exponent x - 52))) * 2 powi (exponent x - 52)"
  by (simp add: float_round_def Let_def)

lemma significand_bounds:
  assumes "0 < x"
  shows "2 ^ 52 \<le> x / 2 powi (exponent x - 52)" "x / 2 powi (exponent x - 52) < 2 ^ 53"
proof -
  have pos: "(0::rat) < 2 powi (exponent x - 52)" by simp
  have "(2::rat) ^ 52 * 2 powi (exponent x - 52) = 2 powi 52 * 2 powi (exponent x - 52)"
    by simp
  also have "\<dots> = 2 powi (52 + (exponent x - 52))"
    by (rule power_int_add [symmetric]) simp
  also have "52 + (exponent x - 52) = exponent x" by simp
  finally have l: "(2::rat) ^ 52 * 2 powi (exponent x - 52) = 2 powi exponent x" .
  have "(2::rat) ^ 53 * 2 powi (exponent x - 52) = 2 powi 53 * 2 powi (exponent x - 52)"
    by simp
  also have "\<dots> = 2 powi (53 + (exponent x - 52))"
    by (rule power_int_add [symmetric]) simp
  also have "53 + (exponent x - 52) = exponent x + 1" by simp
  finally have u: "(2::rat) ^ 53 * 2 powi (exponent x - 52) = 2 powi (exponent x + 1)" .
  show "2 ^ 52 \<le> x / 2 powi (exponent x - 52)"
    using exponent_bounds(1) [OF assms] l pos by (simp add: pos_le_divide_eq)
  show "x / 2 powi (exponent x - 52) < 2 ^ 53"
    using exponent_bounds(2) [OF assms] u pos by (simp add: pos_divide_less_eq)
qed

lemma rounded_significand_bounds:
  assumes "0 < x"
  shows "2 ^ 52 \<le> round_half_even (x / 2 powi (exponent x - 52))"
    "round_half_even (x / 2 powi (exponent x - 52)) \<le> 2 ^ 53"
proof -
  have "round_half_even (of_int (2 ^ 52)) \<le> round_half_even (x / 2 powi (exponent x - 52))"
    using significand_bounds(1) [OF assms] by (intro round_half_even_mono) simp
  then show "2 ^ 52 \<le> round_half_even (x / 2 powi (exponent x - 52))"
    by (simp only: round_half_even_of_int)
  have "round_half_even (x / 2 powi (exponent x - 52)) \<le> round_half_even (of_int (2 ^ 53))"
    using significand_bounds(2) [OF assms] by (intro round_half_even_mono) simp
  then show "round_half_even (x / 2 powi (exponent x - 52)) \<le> 2 ^ 53"
    by (simp only: round_half_even_of_int)
qed

lemma float_round_range:
  assumes "0 < x"
  shows "2 powi exponent x \<le> float_round x" "float_round x \<le> 2 powi (exponent x + 1)"
proof -
  let ?e = "exponent x - 52"
  let ?m = "round_half_even (x / 2 powi ?e)"
  have pos: "(0::rat) < 2 powi ?e" by simp
  have l: "(2::rat) powi exponent x = 2 ^ 52 * 2 powi ?e"
  proof -
    have "(2::rat) ^ 52 * 2 powi ?e = 2 powi 52 * 2 powi ?e" by simp
    also have "\<dots> = 2 powi (52 + (exponent x - 52))"
      by (rule power_int_add [symmetric]) simp
    also have "52 + (exponent x - 52) = exponent x" by simp
    finally show ?thesis by simp
  qed
  have u: "(2::rat) powi (exponent x + 1) = 2 ^ 53 * 2 powi ?e"
  proof -
    have "(2::rat) ^ 53 * 2 powi ?e = 2 powi 53 * 2 powi ?e" by simp
    also have "\<dots> = 2 powi (53 + (exponent x - 52))"
      by (rule power_int_add [symmetric]) simp
    also have "53 + (exponent x - 52) = exponent x + 1" by simp
    finally show ?thesis by simp
  qed
  have "(of_int (2 ^ 52) :: rat) \<le> of_int ?m"
    using rounded_significand_bounds(1) [OF assms] by (simp only: of_int_le_iff)
  then have "(2::rat) ^ 52 * 2 powi ?e \<le> of_int ?m * 2 powi ?e"
    using pos by (intro mult_right_mono) simp_all
  then show "2 powi exponent x \<le> float_round x"
    by (simp only: l float_round_pos_eq [OF assms])
  have "(of_int ?m :: rat) \<le> of_int (2 ^ 53)"
    using rounded_significand_bounds(2) [OF assms] by (simp only: of_int_le_iff)
  then have "of_int ?m * 2 powi ?e \<le> (2::rat) ^ 53 * 2 powi ?e"
    using pos by (intro mult_right_mono) simp_all
  then show "float_round x \<le> 2 powi (exponent x + 1)"
    by (simp only: u float_round_pos_eq [OF assms])
qed

lemma exponent_mono:
  assumes "0 < x" "x \<le> y"
  shows "exponent x \<le> exponent y"
proof (rule ccontr)
  assume "\<not> exponent x \<le> exponent y"
  then have "exponent y + 1 \<le> exponent x" by simp
  then have "(2::rat) powi (exponent y + 1) \<le> 2 powi exponent x"
    by (intro power_int_increasing) simp_all
  moreover have "y < 2 powi (exponent y + 1)" "2 powi exponent x \<le> x"
    using exponent_bounds assms by simp_all
  ultimately show False using assms(2) by linarith
qed

lemma float_round_mono_pos:
  assumes "0 < x" "x \<le> y"
  shows "float_round x \<le> float_round y"
proof (cases "exponent x = exponent y")
  case True
  have y: "0 < y" using assms by simp
  have "x / 2 powi (exponent y - 52) \<le> y / 2 powi (exponent y - 52)"
    using assms(2) by (simp add: divide_right_mono)
  then have "round_half_even (x / 2 powi (exponent y - 52))
      \<le> round_half_even (y / 2 powi (exponent y - 52))"
    by (rule round_half_even_mono)
  then have "(of_int (round_half_even (x / 2 powi (exponent y - 52))) :: rat)
      \<le> of_int (round_half_even (y / 2 powi (exponent y - 52)))"
    by (simp only: of_int_le_iff)
  then have "of_int (round_half_even (x / 2 powi (exponent y - 52))) * 2 powi (exponent y - 52)
      \<le> of_int (round_half_even (y / 2 powi (exponent y - 52))) * (2::rat) powi (exponent y - 52)"
    by (intro mult_right_mono) simp_all
  then show ?thesis
    using float_round_pos_eq [OF assms(1)] float_round_pos_eq [OF y] True by simp
next
  case False
  have y: "0 < y" using assms by simp
  from False exponent_mono [OF assms] have "exponent x + 1 \<le> exponent y" by simp
  then have "(2::rat) powi (exponent x + 1) \<le> 2 powi exponent y"
    by (intro power_int_increasing) simp_all
  with float_round_range(2) [OF assms(1)] float_round_range(1) [OF y] show ?thesis
    by linarith
qed

lemma float_round_pos: "0 < x \<Longrightarrow> 0 < float_round x"
proof -
  assume "0 < x"
  from float_round_range(1) [OF this] have "2 powi exponent x \<le> float_round x" .
  moreover have "(0::rat) < 2 powi exponent x" by simp
  ultimately show ?thesis by linarith
qed


lemma exponent_unique:
  assumes "0 < x" "2 powi e \<le> x" "x < 2 powi (e + 1)"
  shows "exponent x = e"
proof (rule antisym)
  show "exponent x \<le> e"
  proof (rule ccontr)
    assume "\<not> exponent x \<le> e"
    then have "e + 1 \<le> exponent x" by simp
    then have "(2::rat) powi (e + 1) \<le> 2 powi exponent x"
      by (intro power_int_increasing) simp_all
    with exponent_bounds(1) [OF assms(1)] assms(3) show False by linarith
  qed
  show "e \<le> exponent x"
  proof (rule ccontr)
    assume "\<not> e \<le> exponent x"
    then have "exponent x + 1 \<le> e" by simp
    then have "(2::rat) powi (exponent x + 1) \<le> 2 powi e"
      by (intro power_int_increasing) simp_all
    with exponent_bounds(2) [OF assms(1)] assms(2) show False by linarith
  qed
qed

lemma float_round_grid:
  assumes "1 / 2 \<le> x" "x < 1"
  shows "float_round x = of_int (round_half_even (x * 2 ^ 53)) / 2 ^ 53"
proof -
  have x: "0 < x" using assms by simp
  have "exponent x = - 1"
    using assms by (intro exponent_unique [OF x]) (simp_all add: power_int_minus)
  with float_round_pos_eq [OF x] show ?thesis
    by (simp add: power_int_minus field_simps)
qed

lemma float_round_values:
  "float_round 1 = 1" "float_round (1 / 2) = 1 / 2" "float_round 200 = 200" "float_round 300 = 300"
  by code_simp+

lemma target_ratio_value: "target_ratio = 6004799503160661 / 9007199254740992"
  by code_simp

lemma float_round_ge_200: "200 \<le> x \<Longrightarrow> 200 \<le> float_round x"
  using float_round_mono_pos [of 200 x] by (simp add: float_round_values)

lemma float_round_ge_300: "300 \<le> x \<Longrightarrow> 300 \<le> float_round x"
  using float_round_mono_pos [of 300 x] by (simp add: float_round_values)

lemma wider_covers_width:
  assumes "0 < q" "target_ratio < float_round q"
  shows "200 \<le> float_round (300 * float_round q)"
proof -
  consider "q < 1 / 2" | "1 / 2 \<le> q" "q < 1" | "1 \<le> q" by linarith
  then have "200 \<le> 300 * float_round q"
  proof cases
    case 1
    then have "float_round q \<le> 1 / 2"
      using float_round_mono_pos [OF assms(1), of "1 / 2"] by (simp add: float_round_values)
    with assms(2) show ?thesis by (simp add: target_ratio_value)
  next
    case 2
    define k where "k = round_half_even (q * 2 ^ 53)"
    have a: "float_round q = of_int k / 2 ^ 53"
      using float_round_grid [OF 2] by (simp add: k_def)
    from assms(2) have "(6004799503160661::rat) < of_int k"
      by (simp add: a target_ratio_value)
    then have "(of_int 6004799503160661 :: rat) < of_int k" by simp
    then have "6004799503160661 < k" by (simp only: of_int_less_iff)
    then have "6004799503160662 \<le> k" by simp
    then have "(of_int 6004799503160662 :: rat) \<le> of_int k" by (simp only: of_int_le_iff)
    then show ?thesis by (simp add: a)
  next
    case 3
    then have "1 \<le> float_round q"
      using float_round_mono_pos [of 1 q] by (simp add: float_round_values)
    then show ?thesis by simp
  qed
  then show ?thesis by (rule float_round_ge_200)
qed

lemma taller_covers_height:
  assumes "0 < a" "a \<le> target_ratio"
  shows "300 \<le> float_round (200 / a)"
proof -
  from assms have "300 * a \<le> 200"
    by (simp add: target_ratio_value)
  with assms(1) have "300 \<le> 200 / a"
    by (simp add: pos_le_divide_eq)
  then show ?thesis by (rule float_round_ge_300)
qed


section \<open>Properties of the thumbnail\<close>

lemma aspect_ratio_pos: "0 < w \<Longrightarrow> 0 < h \<Longrightarrow> 0 < aspect_ratio_of w h"
  by (simp add: aspect_ratio_of_def fdiv_def float_round_pos)

lemma cover_size_covers:
  assumes "0 < w" "0 < h"
  shows "\<exists>new_width new_height.
     cover_size w h = Inr (new_width, new_height)
     \<and> THUMBNAIL_WIDTH \<le> new_width \<and> THUMBNAIL_HEIGHT \<le> new_height
     \<and> (if target_ratio < aspect_ratio_of w h
         then new_height = THUMBNAIL_HEIGHT
            \<and> new_width = \<lfloor>fmul (of_int THUMBNAIL_HEIGHT) (aspect_ratio_of w h)\<rfloor>
         else new_width = THUMBNAIL_WIDTH
            \<and> new_height = \<lfloor>fdiv (of_int THUMBNAIL_WIDTH) (aspect_ratio_of w h)\<rfloor>)"
proof (cases "target_ratio < aspect_ratio_of w h")
  case True
  have q: "(0::rat) < of_nat w / of_nat h" using assms by simp
  from True have "200 \<le> float_round (300 * float_round (of_nat w / of_nat h))"
    by (intro wider_covers_width [OF q]) (simp add: aspect_ratio_of_def fdiv_def)
  then have w: "200 \<le> fmul (of_int THUMBNAIL_HEIGHT) (aspect_ratio_of w h)"
    by (simp add: fmul_def THUMBNAIL_HEIGHT_def aspect_ratio_of_def fdiv_def)
  then have "200 \<le> \<lfloor>fmul (of_int THUMBNAIL_HEIGHT) (aspect_ratio_of w h)\<rfloor>"
    by (simp add: le_floor_iff)
  moreover from w have "py_int (fmul (of_int THUMBNAIL_HEIGHT) (aspect_ratio_of w h))
      = \<lfloor>fmul (of_int THUMBNAIL_HEIGHT) (aspect_ratio_of w h)\<rfloor>"
    by (simp add: py_int_def)
  ultimately show ?thesis
    using True assms by (simp add: cover_size_def Let_def THUMBNAIL_WIDTH_def THUMBNAIL_HEIGHT_def)
next
  case False
  have a: "0 < aspect_ratio_of w h" using assms by (rule aspect_ratio_pos)
  from False have "300 \<le> float_round (200 / aspect_ratio_of w h)"
    by (intro taller_covers_height [OF a]) simp
  then have h: "300 \<le> fdiv (of_int THUMBNAIL_WIDTH) (aspect_ratio_of w h)"
    by (simp add: fdiv_def THUMBNAIL_WIDTH_def)
  then have "300 \<le> \<lfloor>fdiv (of_int THUMBNAIL_WIDTH) (aspect_ratio_of w h)\<rfloor>"
    by (simp add: le_floor_iff)
  moreover from h have "py_int (fdiv (of_int THUMBNAIL_WIDTH) (aspect_ratio_of w h))
      = \<lfloor>fdiv (of_int THUMBNAIL_WIDTH) (aspect_ratio_of w h)\<rfloor>"
    by (simp add: py_int_def)
  ultimately show ?thesis
    using False a assms
    by (simp add: cover_size_def Let_def THUMBNAIL_WIDTH_def THUMBNAIL_HEIGHT_def)
qed

text \<open>
  Claim C4, as stated, fails: the sizes are cut with \<open>int(...)\<close>, which truncates, not
  rounded to the nearest integer. A 13 by 16 image is wider than 2:3; its aspect ratio
  0.8125 and the product 243.75 are exact in binary64. The code resizes to a width of
  243, and rounding to nearest gives 244.
\<close>

theorem resized_width_not_rounded:
  "resized_size \<lparr>mode = RGB, width = 13, height = 16\<rparr> = Inr (243, 300)
   \<and> target_ratio < aspect_ratio_of 13 16
   \<and> round (of_int THUMBNAIL_HEIGHT * aspect_ratio_of 13 16) = 244"
proof (intro conjI)
  show "resized_size \<lparr>mode = RGB, width = 13, height = 16\<rparr> = Inr (243, 300)"
    by code_simp
  show "target_ratio < aspect_ratio_of 13 16"
    by code_simp
  show "round (of_int THUMBNAIL_HEIGHT * aspect_ratio_of 13 16) = 244"
    by code_simp
qed

text \<open>
  Claim C4, amended. For an image with at least one pixel in each direction: when the
  aspect ratio (the float \<open>original_width / original_height\<close>) is greater than the
  target ratio (the float \<open>200 / 300\<close>), the resized height is exactly 300 and the
  resized width is the float product \<open>300 * aspect_ratio\<close> truncated to an integer;
  otherwise the resized width is exactly 200 and the resized height is the float
  quotient \<open>200 / aspect_ratio\<close> truncated to an integer.
\<close>

theorem resized_size_truncates:
  assumes "0 < width img" and "0 < height img"
  shows "\<exists>new_width new_height.
     resized_size img = Inr (new_width, new_height)
     \<and> (if target_ratio < aspect_ratio_of (width img) (height img)
         then new_height = THUMBNAIL_HEIGHT
            \<and> new_width = \<lfloor>fmul (of_int THUMBNAIL_HEIGHT) (aspect_ratio_of (width img) (height img))\<rfloor>
         else new_width = THUMBNAIL_WIDTH
            \<and> new_height = \<lfloor>fdiv (of_int THUMBNAIL_WIDTH) (aspect_ratio_of (width img) (height img))\<rfloor>)"
proof -
  from cover_size_covers [OF assms] obtain new_width new_height where
    size: "cover_size (width img) (height img) = Inr (new_width, new_height)"
    and how: "if target_ratio < aspect_ratio_of (width img) (height img)
         then new_height = THUMBNAIL_HEIGHT
            \<and> new_width = \<lfloor>fmul (of_int THUMBNAIL_HEIGHT) (aspect_ratio_of (width img) (height img))\<rfloor>
         else new_width = THUMBNAIL_WIDTH
            \<and> new_height = \<lfloor>fdiv (of_int THUMBNAIL_WIDTH) (aspect_ratio_of (width img) (height img))\<rfloor>"
    by blast
  from size have "resized_size img = Inr (new_width, new_height)"
    by (simp add: resized_size_def to_rgb_def)
  with how show ?thesis by blast
qed


text \<open>The 13 by 16 image again: wider than 2:3, resized to 243 by 300.\<close>

theorem resized_size_truncates_witness:
  "0 < width \<lparr>mode = RGB, width = 13, height = 16\<rparr>
   \<and> 0 < height \<lparr>mode = RGB, width = 13, height = 16\<rparr>
   \<and> resized_size \<lparr>mode = RGB, width = 13, height = 16\<rparr> = Inr (243, 300)"
proof -
  let ?img = "\<lparr>mode = RGB, width = 13, height = 16\<rparr>"
  have pos: "0 < width ?img" "0 < height ?img" by simp_all
  have wider: "target_ratio < aspect_ratio_of 13 16" by code_simp
  have cut: "\<lfloor>fmul (of_int THUMBNAIL_HEIGHT) (aspect_ratio_of 13 16)\<rfloor> = 243" by code_simp
  from resized_size_truncates [OF pos] wider cut show ?thesis
    by (auto simp: THUMBNAIL_HEIGHT_def)
qed

lemma thumbnail_of_size:
  "thumbnail_of img = Inr thumbnail \<Longrightarrow> width thumbnail = 200 \<and> height thumbnail = 300"
  by (auto simp: thumbnail_of_def resize_def crop_def crop_box_def Let_def
      THUMBNAIL_WIDTH_def THUMBNAIL_HEIGHT_def split: sum.splits if_splits)


lemma create_thumbnail_size:
  "create_thumbnail image_path = Return (Some thumbnail) \<Longrightarrow>
   width thumbnail = 200 \<and> height thumbnail = 300"
  using thumbnail_of_size
  by (auto simp: create_thumbnail_def split: option.splits sum.splits)



end
